theory Spec2Isabelle
  imports Complex_Main "HOL-Library.Log_Nat"
begin

section \<open>Python values used by Traductor.py\<close>

subsection \<open>Strings and \<open>str.strip\<close>\<close>

text \<open>
  A Python \<open>str\<close> is modelled as a \<open>string\<close> whose characters stand for the code points
  below 256. \<open>isspace\<close> is Python's \<open>str.isspace\<close> on these code points: the controls
  \<open>\t \n \v \f \r\<close>, the separators \<open>0x1c\<close> to \<open>0x1f\<close>, the blank, \<open>0x85\<close> and \<open>0xa0\<close>.
  \<open>strip\<close> is \<open>str.strip()\<close> without arguments; a string is truthy when it is not empty.
\<close>

definition isspace :: "char \<Rightarrow> bool" where
  "isspace c =
     (let n = (of_char c :: nat) in
      (9 \<le> n \<and> n \<le> 13) \<or> (28 \<le> n \<and> n \<le> 32) \<or> n = 133 \<or> n = 160)"

definition strip :: "string \<Rightarrow> string" where
  "strip s = rev (dropWhile isspace (rev (dropWhile isspace s)))"

text \<open>\<open>sep.join(parts)\<close>.\<close>

fun join :: "string \<Rightarrow> string list \<Rightarrow> string" where
  "join sep [] = []"
| "join sep [s] = s"
| "join sep (s # t # ss) = s @ sep @ join sep (t # ss)"

subsection \<open>Floats: \<open>int / int\<close>, \<open>float * int\<close> and \<open>int(float)\<close>\<close>

text \<open>
  A finite Python float is an IEEE 754 binary64 number; it is modelled by the rational it
  denotes. \<open>round_double\<close> rounds a rational to the nearest binary64 number, ties to
  even: the unit in the last place is \<open>2 powi ulp_exp x\<close>, that is 52 binary places below
  the leading bit of \<open>x\<close> and never below the subnormal spacing \<open>2 powi (- 1074)\<close>.
  \<open>ilog2 x\<close> is the position of the leading bit of a positive \<open>x\<close>.
\<close>

definition ilog2 :: "rat \<Rightarrow> int" where
  "ilog2 x = (if 1 \<le> x then bitlen \<lfloor>x\<rfloor> - 1 else - bitlen (\<lceil>1 / x\<rceil> - 1))"

definition round_half_even :: "rat \<Rightarrow> int" where
  "round_half_even x =
     (let f = \<lfloor>x\<rfloor>; r = x - of_int f in
      if r < 1 / 2 then f else if 1 / 2 < r then f + 1 else if even f then f else f + 1)"

definition ulp_exp :: "rat \<Rightarrow> int" where
  "ulp_exp x = max (ilog2 x - 52) (- 1074)"

definition round_double :: "rat \<Rightarrow> rat" where
  "round_double x =
     (if x = 0 then 0
      else sgn x * of_int (round_half_even (\<bar>x\<bar> / 2 powi ulp_exp \<bar>x\<bar>)) * 2 powi ulp_exp \<bar>x\<bar>)"

text \<open>Rounded magnitudes from \<open>2 ^ 1024\<close> on are beyond the largest finite float.\<close>

definition overflows :: "rat \<Rightarrow> bool" where
  "overflows x = (2 ^ 1024 \<le> \<bar>x\<bar>)"

text \<open>
  \<open>a / b\<close> on two ints is the correctly rounded quotient; it raises \<open>ZeroDivisionError\<close> on
  a zero divisor and \<open>OverflowError\<close> when the quotient is too large. An exception is the
  string that \<open>str(e)\<close> gives.
\<close>

definition truediv :: "int \<Rightarrow> int \<Rightarrow> string + rat" where
  "truediv a b =
     (if b = 0 then Inl ''division by zero''
      else let q = round_double (of_int a / of_int b) in
        if overflows q then Inl ''integer division result too large for a float'' else Inr q)"

text \<open>\<open>x * y\<close> on floats rounds the exact product; \<open>None\<close> is an infinity.\<close>

definition float_mul :: "rat \<Rightarrow> rat \<Rightarrow> rat option" where
  "float_mul x y = (let r = round_double (x * y) in if overflows r then None else Some r)"

text \<open>\<open>int(x)\<close> truncates towards zero and raises \<open>OverflowError\<close> on an infinity.\<close>

definition int_of_float :: "rat option \<Rightarrow> string + int" where
  "int_of_float x =
     (case x of
        None \<Rightarrow> Inl ''cannot convert float infinity to integer''
      | Some r \<Rightarrow> Inr (if 0 \<le> r then \<lfloor>r\<rfloor> else \<lceil>r\<rceil>))"

text \<open>The expression \<open>int(processed_shapes / total_shapes * 100)\<close> of line 61.\<close>

definition percentage :: "nat \<Rightarrow> nat \<Rightarrow> string + int" where
  "percentage processed_shapes total_shapes =
     (case truediv (int processed_shapes) (int total_shapes) of
        Inl e \<Rightarrow> Inl e
      | Inr q \<Rightarrow> int_of_float (float_mul q 100))"

section \<open>The document, as the worker sees it\<close>

text \<open>
  The worker reads a presentation through four attributes only: \<open>prs.slides\<close>,
  \<open>slide.shapes\<close>, and on a shape \<open>text\<close> and \<open>text_frame\<close>, either of which a shape may
  lack (\<open>hasattr\<close> is false, \<open>None\<close> here). A text frame holds paragraphs, each with a
  \<open>text\<close>; the frame's own \<open>text\<close> is, in the document library, the paragraphs' texts
  joined by line feeds.
\<close>

record para =
  para_text :: string

record text_frame =
  paragraphs :: "para list"

record shape =
  shape_text :: "string option"
  shape_text_frame :: "text_frame option"

record slide =
  shapes :: "shape list"

record presentation =
  slides :: "slide list"

definition text_frame_text :: "text_frame \<Rightarrow> string" where
  "text_frame_text tf = join [CHR 0x0A] (map para_text (paragraphs tf))"

section \<open>Signals, external calls and the world\<close>

datatype notification = Progress int | Finished | Error string

text \<open>
  Everything the worker does to its surroundings, in the order it happens: a signal
  emitted, a call of the translation library or of the document library, an
  assignment of a translated text, a line printed; each call with the exception it
  raised, if any.
\<close>

datatype action =
    Emit notification
  | Call_GoogleTranslator string string "string option"
  | Call_Presentation string "string option"
  | Call_translate string "string + string"
  | Assign string "string option"
  | Call_save presentation string "string option"
  | Print string "string option"

text \<open>
  The libraries are parameters. Each call may read and change the world \<open>'w\<close> (network,
  file system) and either raises an exception (its message) or returns:
  \<open>GoogleTranslator(source, target)\<close>, \<open>Presentation(path)\<close>,
  \<open>translator.translate(text)\<close> for the translator of (source, target), the setter of
  \<open>shape.text\<close> and \<open>paragraph.text\<close>, \<open>prs.save(path)\<close>, and \<open>print(line)\<close>, which raises
  when the standard output cannot take the line (it is closed, or its encoding lacks a
  character of the line).
\<close>

record 'w services =
  GoogleTranslator :: "string \<Rightarrow> string \<Rightarrow> 'w \<Rightarrow> string option \<times> 'w"
  Presentation :: "string \<Rightarrow> 'w \<Rightarrow> (string + presentation) \<times> 'w"
  translate :: "string \<Rightarrow> string \<Rightarrow> string \<Rightarrow> 'w \<Rightarrow> (string + string) \<times> 'w"
  set_text :: "string \<Rightarrow> 'w \<Rightarrow> string option \<times> 'w"
  save :: "presentation \<Rightarrow> string \<Rightarrow> 'w \<Rightarrow> string option \<times> 'w"
  print :: "string \<Rightarrow> 'w \<Rightarrow> string option \<times> 'w"

record 'w state =
  world :: 'w
  trace :: "action list"

definition emit :: "notification \<Rightarrow> 'w state \<Rightarrow> 'w state" where
  "emit n st = st\<lparr>trace := trace st @ [Emit n]\<rparr>"

definition call_print :: "'w services \<Rightarrow> string \<Rightarrow> 'w state \<Rightarrow> string option \<times> 'w state" where
  "call_print env s st =
     (case print env s (world st) of
        (r, w) \<Rightarrow> (r, \<lparr>world = w, trace = trace st @ [Print s r]\<rparr>))"

definition call_GoogleTranslator ::
  "'w services \<Rightarrow> string \<Rightarrow> string \<Rightarrow> 'w state \<Rightarrow> string option \<times> 'w state" where
  "call_GoogleTranslator env src tgt st =
     (case GoogleTranslator env src tgt (world st) of
        (r, w) \<Rightarrow> (r, \<lparr>world = w, trace = trace st @ [Call_GoogleTranslator src tgt r]\<rparr>))"

definition call_Presentation ::
  "'w services \<Rightarrow> string \<Rightarrow> 'w state \<Rightarrow> (string + presentation) \<times> 'w state" where
  "call_Presentation env path st =
     (case Presentation env path (world st) of
        (r, w) \<Rightarrow>
          (r, \<lparr>world = w,
               trace = trace st @
                 [Call_Presentation path (case r of Inl e \<Rightarrow> Some e | Inr _ \<Rightarrow> None)]\<rparr>))"

definition call_translate ::
  "'w services \<Rightarrow> string \<Rightarrow> string \<Rightarrow> string \<Rightarrow> 'w state \<Rightarrow> (string + string) \<times> 'w state" where
  "call_translate env src tgt t st =
     (case translate env src tgt t (world st) of
        (r, w) \<Rightarrow> (r, \<lparr>world = w, trace = trace st @ [Call_translate t r]\<rparr>))"

definition assign :: "'w services \<Rightarrow> string \<Rightarrow> 'w state \<Rightarrow> string option \<times> 'w state" where
  "assign env v st =
     (case set_text env v (world st) of
        (r, w) \<Rightarrow> (r, \<lparr>world = w, trace = trace st @ [Assign v r]\<rparr>))"

definition call_save ::
  "'w services \<Rightarrow> presentation \<Rightarrow> string \<Rightarrow> 'w state \<Rightarrow> string option \<times> 'w state" where
  "call_save env prs path st =
     (case save env prs path (world st) of
        (r, w) \<Rightarrow> (r, \<lparr>world = w, trace = trace st @ [Call_save prs path r]\<rparr>))"

section \<open>TranslatorThread\<close>

text \<open>
  The thread object: the four fields set by \<open>__init__\<close> and, for each of its three
  signals, the slots connected to it. A slot is one of the window's three handlers.
\<close>

datatype slot = Update_progress | Translation_finished | Translation_error

record TranslatorThread =
  input_file :: string
  output_file :: string
  source :: string
  target :: string
  progress_slots :: "slot list"
  finished_slots :: "slot list"
  error_slots :: "slot list"

text \<open>
  Lines 53 to 55: the paragraphs of a text frame, in order. The result is the exception
  that ended the loop, if any, with the paragraphs as they are then: those assigned
  before the exception keep their new text.
\<close>

fun translate_paragraphs ::
  "'w services \<Rightarrow> string \<Rightarrow> string \<Rightarrow> para list \<Rightarrow> 'w state \<Rightarrow>
     string option \<times> para list \<times> 'w state" where
  "translate_paragraphs env src tgt [] st = (None, [], st)"
| "translate_paragraphs env src tgt (p # ps) st =
     (if strip (para_text p) \<noteq> [] then
        (case call_translate env src tgt (para_text p) st of
           (Inl e, st1) \<Rightarrow> (Some e, p # ps, st1)
         | (Inr t, st1) \<Rightarrow>
             (case assign env t st1 of
                (Some e, st2) \<Rightarrow> (Some e, p # ps, st2)
              | (None, st2) \<Rightarrow>
                  (case translate_paragraphs env src tgt ps st2 of
                     (r, ps', st3) \<Rightarrow> (r, p\<lparr>para_text := t\<rparr> # ps', st3))))
      else
        (case translate_paragraphs env src tgt ps st of
           (r, ps', st') \<Rightarrow> (r, p # ps', st')))"

text \<open>Lines 48 to 55, the body of the inner \<open>try\<close>.\<close>

definition translate_shape ::
  "'w services \<Rightarrow> string \<Rightarrow> string \<Rightarrow> shape \<Rightarrow> 'w state \<Rightarrow> string option \<times> shape \<times> 'w state" where
  "translate_shape env src tgt sh st =
     (case shape_text sh of
        Some t \<Rightarrow>
          (if strip t \<noteq> [] then
             (case call_translate env src tgt t st of
                (Inl e, st1) \<Rightarrow> (Some e, sh, st1)
              | (Inr t', st1) \<Rightarrow>
                  (case assign env t' st1 of
                     (Some e, st2) \<Rightarrow> (Some e, sh, st2)
                   | (None, st2) \<Rightarrow> (None, sh\<lparr>shape_text := Some t'\<rparr>, st2)))
           else (None, sh, st))
      | None \<Rightarrow>
          (case shape_text_frame sh of
             Some tf \<Rightarrow>
               (if strip (text_frame_text tf) \<noteq> [] then
                  (case translate_paragraphs env src tgt (paragraphs tf) st of
                     (r, ps', st') \<Rightarrow>
                       (r, sh\<lparr>shape_text_frame := Some (tf\<lparr>paragraphs := ps'\<rparr>)\<rparr>, st'))
                else (None, sh, st))
           | None \<Rightarrow> (None, sh, st)))"

text \<open>
  Lines 46 to 61, one pass of the inner loop: the \<open>try\<close> with its handler, which prints
  and goes on, then the count and the progress signal. An exception raised by the
  handler's own \<open>print\<close> (line 57) or by line 61 is not handled here: it is the first
  component of the result, and the count is as it was when it was raised.
\<close>

definition process_shape ::
  "'w services \<Rightarrow> string \<Rightarrow> string \<Rightarrow> nat \<Rightarrow> shape \<Rightarrow> nat \<Rightarrow> 'w state \<Rightarrow>
     string option \<times> shape \<times> nat \<times> 'w state" where
  "process_shape env src tgt total_shapes sh processed_shapes st =
     (case translate_shape env src tgt sh st of
        (r, sh', st1) \<Rightarrow>
          (case (case r of
                   Some shape_error \<Rightarrow>
                     call_print env (''Error processing shape: '' @ shape_error) st1
                 | None \<Rightarrow> (None, st1)) of
             (Some e, st2) \<Rightarrow> (Some e, sh', processed_shapes, st2)
           | (None, st2) \<Rightarrow>
               (let processed_shapes' = processed_shapes + 1
                in case percentage processed_shapes' total_shapes of
                     Inl e \<Rightarrow> (Some e, sh', processed_shapes', st2)
                   | Inr v \<Rightarrow> (None, sh', processed_shapes', emit (Progress v) st2))))"

text \<open>Line 45, the loop over the shapes of one slide.\<close>

fun run_shapes ::
  "'w services \<Rightarrow> string \<Rightarrow> string \<Rightarrow> nat \<Rightarrow> shape list \<Rightarrow> nat \<Rightarrow> 'w state \<Rightarrow>
     string option \<times> shape list \<times> nat \<times> 'w state" where
  "run_shapes env src tgt total_shapes [] k st = (None, [], k, st)"
| "run_shapes env src tgt total_shapes (sh # shs) k st =
     (case process_shape env src tgt total_shapes sh k st of
        (Some e, sh', k', st') \<Rightarrow> (Some e, sh' # shs, k', st')
      | (None, sh', k', st') \<Rightarrow>
          (case run_shapes env src tgt total_shapes shs k' st' of
             (r, shs', k'', st'') \<Rightarrow> (r, sh' # shs', k'', st'')))"

text \<open>Line 44, the loop over the slides.\<close>

fun run_slides ::
  "'w services \<Rightarrow> string \<Rightarrow> string \<Rightarrow> nat \<Rightarrow> slide list \<Rightarrow> nat \<Rightarrow> 'w state \<Rightarrow>
     string option \<times> slide list \<times> nat \<times> 'w state" where
  "run_slides env src tgt total_shapes [] k st = (None, [], k, st)"
| "run_slides env src tgt total_shapes (sl # sls) k st =
     (case run_shapes env src tgt total_shapes (shapes sl) k st of
        (Some e, shs', k', st') \<Rightarrow> (Some e, sl\<lparr>shapes := shs'\<rparr> # sls, k', st')
      | (None, shs', k', st') \<Rightarrow>
          (case run_slides env src tgt total_shapes sls k' st' of
             (r, sls', k'', st'') \<Rightarrow> (r, sl\<lparr>shapes := shs'\<rparr> # sls', k'', st'')))"

text \<open>Line 41.\<close>

definition total_shapes_of :: "presentation \<Rightarrow> nat" where
  "total_shapes_of prs = sum_list (map (\<lambda>slide. length (shapes slide)) (slides prs))"

text \<open>Lines 36 to 67.\<close>

definition run :: "'w services \<Rightarrow> TranslatorThread \<Rightarrow> 'w state \<Rightarrow> 'w state" where
  "run env self st =
     (case call_GoogleTranslator env (source self) (target self) st of
        (Some e, st1) \<Rightarrow> emit (Error e) st1
      | (None, st1) \<Rightarrow>
          (case call_Presentation env (input_file self) st1 of
             (Inl e, st2) \<Rightarrow> emit (Error e) st2
           | (Inr prs, st2) \<Rightarrow>
               (case run_slides env (source self) (target self) (total_shapes_of prs)
                       (slides prs) 0 st2 of
                  (Some e, sls, k, st3) \<Rightarrow> emit (Error e) st3
                | (None, sls, k, st3) \<Rightarrow>
                    (case call_save env (prs\<lparr>slides := sls\<rparr>) (output_file self) st3 of
                       (Some e, st4) \<Rightarrow> emit (Error e) st4
                     | (None, st4) \<Rightarrow> emit Finished st4))))"

subsection \<open>Reading a trace\<close>

fun notifications :: "action list \<Rightarrow> notification list" where
  "notifications [] = []"
| "notifications (Emit n # as) = n # notifications as"
| "notifications (_ # as) = notifications as"

text \<open>The texts handed to the translator, and the texts it returned.\<close>

fun sent :: "action list \<Rightarrow> string list" where
  "sent [] = []"
| "sent (Call_translate t _ # as) = t # sent as"
| "sent (_ # as) = sent as"

fun returned :: "action list \<Rightarrow> string list" where
  "returned [] = []"
| "returned (Call_translate _ (Inr t) # as) = t # returned as"
| "returned (_ # as) = returned as"

text \<open>What the two loops of lines 44 to 61 can do, as opposed to the steps around them.\<close>

fun in_loop :: "action \<Rightarrow> bool" where
  "in_loop (Emit (Progress _)) = True"
| "in_loop (Call_translate _ _) = True"
| "in_loop (Assign _ _) = True"
| "in_loop (Print _ _) = True"
| "in_loop _ = False"

fun is_terminal :: "notification \<Rightarrow> bool" where
  "is_terminal (Progress _) = False"
| "is_terminal _ = True"

fun progress_values :: "notification list \<Rightarrow> int list" where
  "progress_values [] = []"
| "progress_values (Progress v # ns) = v # progress_values ns"
| "progress_values (_ # ns) = progress_values ns"

text \<open>A run from a fresh trace, and the signals it emits.\<close>

definition start :: "'w \<Rightarrow> 'w state" where
  "start w = \<lparr>world = w, trace = []\<rparr>"

definition run_notifications :: "'w services \<Rightarrow> TranslatorThread \<Rightarrow> 'w \<Rightarrow> notification list" where
  "run_notifications env self w = notifications (trace (run env self (start w)))"

section \<open>PPTXTranslatorApp\<close>

text \<open>
  The window: the two labels, the two combo boxes' current texts, the progress bar's
  value, whether the translate button is enabled, the attribute \<open>thread\<close> once it is set,
  and what the window has done so far, in order: the message boxes shown and the
  threads started.
\<close>

datatype dialog =
    Warning string string
  | Information string string
  | Critical string string

datatype ui_effect = MessageBox dialog | Thread_start TranslatorThread

record PPTXTranslatorApp =
  input_file_label :: string
  output_file_label :: string
  source_lang :: string
  target_lang :: string
  progress_bar :: int
  translate_button :: bool
  thread :: "TranslatorThread option"
  effects :: "ui_effect list"

text \<open>
  \<open>QProgressBar.setValue\<close> with the default range 0 to 100: a value outside the range
  leaves the bar as it is. A new bar holds \<open>- 1\<close>.
\<close>

definition setValue :: "int \<Rightarrow> int \<Rightarrow> int" where
  "setValue v bar = (if 0 \<le> v \<and> v \<le> 100 then v else bar)"

definition languages :: "string list" where
  "languages = [''en'', ''es'', ''fr'', ''de'', ''it'', ''pt'', ''ru'', ''ja'', ''ko'', ''zh'']"

text \<open>The window as \<open>initUI\<close> leaves it.\<close>

definition initUI :: PPTXTranslatorApp where
  "initUI =
     \<lparr>input_file_label = ''No input file selected'',
      output_file_label = ''No output file selected'',
      source_lang = ''en'',
      target_lang = ''es'',
      progress_bar = - 1,
      translate_button = True,
      thread = None,
      effects = []\<rparr>"

text \<open>The two file dialogs give the chosen name, empty when the user cancels.\<close>

definition select_input_file :: "string \<Rightarrow> PPTXTranslatorApp \<Rightarrow> PPTXTranslatorApp" where
  "select_input_file file_name app =
     (if file_name \<noteq> [] then app\<lparr>input_file_label := file_name\<rparr> else app)"

definition select_output_file :: "string \<Rightarrow> PPTXTranslatorApp \<Rightarrow> PPTXTranslatorApp" where
  "select_output_file file_name app =
     (if file_name \<noteq> [] then app\<lparr>output_file_label := file_name\<rparr> else app)"

text \<open>Lines 139 to 156.\<close>

definition translate_pptx :: "PPTXTranslatorApp \<Rightarrow> PPTXTranslatorApp" where
  "translate_pptx app =
     (if input_file_label app = ''No input file selected'' \<or>
         output_file_label app = ''No output file selected''
      then app\<lparr>effects := effects app @
             [MessageBox (Warning ''Error'' ''Please select both input and output files.'')]\<rparr>
      else
        (let th = \<lparr>input_file = input_file_label app,
                   output_file = output_file_label app,
                   source = source_lang app,
                   target = target_lang app,
                   progress_slots = [Update_progress],
                   finished_slots = [Translation_finished],
                   error_slots = [Translation_error]\<rparr>
         in app\<lparr>thread := Some th,
                translate_button := False,
                progress_bar := setValue 0 (progress_bar app),
                effects := effects app @ [Thread_start th]\<rparr>))"

text \<open>Lines 159 to 170, the three handlers.\<close>

definition update_progress :: "int \<Rightarrow> PPTXTranslatorApp \<Rightarrow> PPTXTranslatorApp" where
  "update_progress v app = app\<lparr>progress_bar := setValue v (progress_bar app)\<rparr>"

definition translation_finished :: "PPTXTranslatorApp \<Rightarrow> PPTXTranslatorApp" where
  "translation_finished app =
     app\<lparr>translate_button := True,
         effects := effects app @
           [MessageBox (Information ''Success''
              (''Translation completed. File saved as: '' @ output_file_label app))]\<rparr>"

definition translation_error :: "string \<Rightarrow> PPTXTranslatorApp \<Rightarrow> PPTXTranslatorApp" where
  "translation_error error_message app =
     app\<lparr>translate_button := True,
         effects := effects app @
           [MessageBox (Critical ''Error''
              (''An error occurred during translation: '' @ error_message))]\<rparr>"

text \<open>
  A signal reaching the window calls the slots connected to it, in the order of
  connection, with the signal's argument.
\<close>

fun invoke :: "notification \<Rightarrow> slot \<Rightarrow> PPTXTranslatorApp \<Rightarrow> PPTXTranslatorApp" where
  "invoke (Progress v) Update_progress app = update_progress v app"
| "invoke Finished Translation_finished app = translation_finished app"
| "invoke (Error m) Translation_error app = translation_error m app"
| "invoke _ _ app = app"

fun deliver :: "TranslatorThread \<Rightarrow> notification \<Rightarrow> PPTXTranslatorApp \<Rightarrow> PPTXTranslatorApp" where
  "deliver th (Progress v) app = fold (invoke (Progress v)) (progress_slots th) app"
| "deliver th Finished app = fold (invoke Finished) (finished_slots th) app"
| "deliver th (Error m) app = fold (invoke (Error m)) (error_slots th) app"

text \<open>
  A click on the translate button with all that follows from it: the handler, then for
  the thread it started, if it started one, the run and the delivery of its signals to
  the window in the order of emission.
\<close>

definition click_translate ::
  "'w services \<Rightarrow> PPTXTranslatorApp \<times> 'w state \<Rightarrow> PPTXTranslatorApp \<times> 'w state" where
  "click_translate env s =
     (case s of
        (app, st) \<Rightarrow>
          (let app1 = translate_pptx app in
           case drop (length (effects app)) (effects app1) of
             [Thread_start th] \<Rightarrow>
               (let st1 = run env th st in
                (fold (deliver th) (notifications (drop (length (trace st)) (trace st1))) app1, st1))
           | _ \<Rightarrow> (app1, st)))"

section \<open>Files\<close>

text \<open>
  What the libraries are taken to do to the files, read off the world by \<open>files\<close>: only
  \<open>save\<close> writes, and only the file at the path it is given (whether it returns or
  raises); \<open>print\<close> writes to the standard output, which is none of the files.
\<close>

definition writes_only_on_save :: "'w services \<Rightarrow> ('w \<Rightarrow> string \<Rightarrow> 'f) \<Rightarrow> bool" where
  "writes_only_on_save env files \<longleftrightarrow>
     (\<forall>s t w. files (snd (GoogleTranslator env s t w)) = files w) \<and>
     (\<forall>p w. files (snd (Presentation env p w)) = files w) \<and>
     (\<forall>s t x w. files (snd (translate env s t x w)) = files w) \<and>
     (\<forall>v w. files (snd (set_text env v w)) = files w) \<and>
     (\<forall>s w. files (snd (print env s w)) = files w) \<and>
     (\<forall>prs p w q. q \<noteq> p \<longrightarrow> files (snd (save env prs p w)) q = files w q)"

section \<open>A small world to run the worker in\<close>

text \<open>
  A disk that maps a path to the presentation stored there, a translator that knows one
  word and fails on texts that begin with \<open>fail\<close>, putting the text into the message of
  its exception, a list of paths that cannot be written, and a standard output in ASCII:
  \<open>print\<close> raises on a line with a character from 128 on.
\<close>

type_synonym disk = "string \<Rightarrow> presentation option"

definition stub_translate :: "string \<Rightarrow> string + string" where
  "stub_translate t =
     (if t = ''Hello'' then Inr ''Hola''
      else if take 4 t = ''fail'' then Inl (t @ '' --> text could not be translated'')
      else Inr (''es:'' @ t))"

definition ascii_print :: "string \<Rightarrow> string option" where
  "ascii_print s =
     (if list_all (\<lambda>c. (of_char c :: nat) < 128) s then None
      else Some ''ascii codec cannot encode a character of the line'')"

definition disk_services :: "string list \<Rightarrow> disk services" where
  "disk_services locked =
     \<lparr>GoogleTranslator = (\<lambda>s t d. (None, d)),
      Presentation = (\<lambda>p d. case d p of
                               None \<Rightarrow> (Inl (''Package not found at '' @ p), d)
                             | Some prs \<Rightarrow> (Inr prs, d)),
      translate = (\<lambda>s t x d. (stub_translate x, d)),
      set_text = (\<lambda>v d. (None, d)),
      save = (\<lambda>prs p d. if p \<in> set locked then (Some ''Permission denied'', d)
                          else (None, d(p := Some prs))),
      print = (\<lambda>s d. (ascii_print s, d))\<rparr>"

text \<open>A text that the stub translator refuses and that has a character beyond ASCII.\<close>

definition untranslatable :: string where
  "untranslatable = ''fail: caf'' @ [CHR 0xE9]"

definition text_box :: "string \<Rightarrow> shape" where
  "text_box t = \<lparr>shape_text = Some t, shape_text_frame = None\<rparr>"


definition picture :: shape where
  "picture = \<lparr>shape_text = None, shape_text_frame = None\<rparr>"

definition deck :: "shape list list \<Rightarrow> presentation" where
  "deck sss = \<lparr>slides = map (\<lambda>ss. \<lparr>shapes = ss\<rparr>) sss\<rparr>"

definition disk_with :: "string \<Rightarrow> presentation \<Rightarrow> disk" where
  "disk_with p prs = (\<lambda>q. if q = p then Some prs else None)"

definition job :: "string \<Rightarrow> string \<Rightarrow> TranslatorThread" where
  "job inp out =
     \<lparr>input_file = inp, output_file = out, source = ''en'', target = ''es'',
      progress_slots = [Update_progress], finished_slots = [Translation_finished],
      error_slots = [Translation_error]\<rparr>"

section \<open>Properties of the float operations\<close>

subsection \<open>Rounding is monotone\<close>



lemma powi_nat: "0 \<le> k \<Longrightarrow> (2::rat) powi k = 2 ^ nat k"
  by (simp add: power_int_def)

lemma powi_neg: "0 \<le> k \<Longrightarrow> (2::rat) powi (- k) = 1 / 2 ^ nat k"
  by (simp add: power_int_minus powi_nat field_simps)

lemma ilog2_lower_ge1:
  assumes "1 \<le> x"
  shows "2 powi ilog2 x \<le> x" and "x < 2 powi (ilog2 x + 1)"
proof -
  define n where "n = \<lfloor>x\<rfloor>"
  have n1: "1 \<le> n" using assms by (simp add: n_def le_floor_iff)
  then have n0: "0 < n" by simp
  have b1: "1 \<le> bitlen n" using n0 bitlen_eq_zero_iff [of n] bitlen_nonneg [of n] by linarith
  have il: "ilog2 x = bitlen n - 1" using assms by (simp add: ilog2_def n_def)
  from bitlen_bounds [OF n0] have lo: "2 ^ nat (bitlen n - 1) \<le> n" and hi: "n < 2 ^ nat (bitlen n)"
    by simp_all
  have "(2::rat) powi ilog2 x = of_int (2 ^ nat (bitlen n - 1))"
    using b1 by (simp add: il powi_nat)
  also have "\<dots> \<le> of_int n" using lo by (simp only: of_int_le_iff)
  also have "\<dots> \<le> x" by (simp add: n_def)
  finally show "2 powi ilog2 x \<le> x" .
  have "x < of_int (n + 1)" unfolding n_def by linarith
  also have "\<dots> \<le> of_int (2 ^ nat (bitlen n))" using hi by (simp only: of_int_le_iff)
  also have "\<dots> = (2::rat) powi (ilog2 x + 1)"
    using b1 by (simp add: il powi_nat)
  finally show "x < 2 powi (ilog2 x + 1)" .
qed

lemma ilog2_lower_lt1:
  assumes "0 < x" "x < 1"
  shows "2 powi ilog2 x \<le> x" and "x < 2 powi (ilog2 x + 1)"
proof -
  define m where "m = \<lceil>1 / x\<rceil>"
  define j where "j = m - 1"
  have inv: "1 < 1 / x" using assms by simp
  have m2: "2 \<le> m" using inv unfolding m_def by linarith
  then have j0: "0 < j" by (simp add: j_def)
  have b1: "1 \<le> bitlen j" using j0 bitlen_eq_zero_iff [of j] bitlen_nonneg [of j] by linarith
  have il: "ilog2 x = - bitlen j" using assms by (simp add: ilog2_def m_def j_def)
  from bitlen_bounds [OF j0] have lo: "2 ^ nat (bitlen j - 1) \<le> j" and hi: "j < 2 ^ nat (bitlen j)"
    by simp_all
  have "1 / x \<le> of_int m" by (simp add: m_def)
  also have "\<dots> \<le> of_int (2 ^ nat (bitlen j))" using hi unfolding j_def by (simp only: of_int_le_iff)
  finally have "1 / x \<le> 2 ^ nat (bitlen j)" by simp
  then have "1 \<le> 2 ^ nat (bitlen j) * x" using assms(1) by (simp add: field_simps)
  then have "1 / 2 ^ nat (bitlen j) \<le> x" by (simp add: field_simps)
  then show "2 powi ilog2 x \<le> x" using b1 by (simp add: il powi_neg)
  have "(2::rat) ^ nat (bitlen j - 1) = of_int (2 ^ nat (bitlen j - 1))" by simp
  also have "\<dots> \<le> of_int j" using lo by (simp only: of_int_le_iff)
  also have "\<dots> < 1 / x" unfolding j_def m_def by linarith
  finally have "2 ^ nat (bitlen j - 1) * x < 1" using assms(1) by (simp add: field_simps)
  then have "x < 1 / 2 ^ nat (bitlen j - 1)" by (simp add: field_simps)
  moreover have "(2::rat) powi (ilog2 x + 1) = 1 / 2 ^ nat (bitlen j - 1)"
  proof -
    have "ilog2 x + 1 = - (bitlen j - 1)" by (simp add: il)
    then show ?thesis using b1 powi_neg [of "bitlen j - 1"] by simp
  qed
  ultimately show "x < 2 powi (ilog2 x + 1)" by simp
qed

lemma ilog2_bounds:
  assumes "0 < x"
  shows "2 powi ilog2 x \<le> x" and "x < 2 powi (ilog2 x + 1)"
  using assms ilog2_lower_ge1 [of x] ilog2_lower_lt1 [of x] by (cases "1 \<le> x"; simp)+

lemma ilog2_mono:
  assumes "0 < x" "x \<le> y"
  shows "ilog2 x \<le> ilog2 y"
proof (rule ccontr)
  assume "\<not> ilog2 x \<le> ilog2 y"
  then have "ilog2 y + 1 \<le> ilog2 x" by simp
  then have "(2::rat) powi (ilog2 y + 1) \<le> 2 powi ilog2 x"
    by (intro power_int_increasing) simp_all
  moreover have "y < 2 powi (ilog2 y + 1)" using assms by (intro ilog2_bounds) simp
  moreover have "2 powi ilog2 x \<le> x" using assms by (intro ilog2_bounds)
  ultimately show False using assms(2) by linarith
qed

lemma round_half_even_bounds:
  "\<lfloor>x\<rfloor> \<le> round_half_even x" "round_half_even x \<le> \<lfloor>x\<rfloor> + 1"
  by (simp_all add: round_half_even_def Let_def)

lemma round_half_even_of_int [simp]: "round_half_even (of_int n) = n"
  by (simp add: round_half_even_def)

lemma round_half_even_mono:
  assumes "x \<le> y"
  shows "round_half_even x \<le> round_half_even y"
proof (cases "\<lfloor>x\<rfloor> = \<lfloor>y\<rfloor>")
  case True
  then show ?thesis using assms by (auto simp: round_half_even_def Let_def)
next
  case False
  then have "\<lfloor>x\<rfloor> + 1 \<le> \<lfloor>y\<rfloor>" using floor_mono [OF assms] by linarith
  then show ?thesis
    using round_half_even_bounds(2) [of x] round_half_even_bounds(1) [of y] by linarith
qed

lemma ulp_exp_mono: "0 < x \<Longrightarrow> x \<le> y \<Longrightarrow> ulp_exp x \<le> ulp_exp y"
  using ilog2_mono [of x y] by (simp add: ulp_exp_def)

lemma round_double_pos:
  "0 < x \<Longrightarrow>
     round_double x = of_int (round_half_even (x / 2 powi ulp_exp x)) * 2 powi ulp_exp x"
  by (simp add: round_double_def)

lemma round_double_nonneg: "0 \<le> x \<Longrightarrow> 0 \<le> round_double x"
proof -
  assume x: "0 \<le> x"
  have "0 \<le> x / 2 powi ulp_exp x" using x by simp
  then have "0 \<le> round_half_even (x / 2 powi ulp_exp x)"
    using round_half_even_mono [of 0 "x / 2 powi ulp_exp x"] round_half_even_of_int [of 0] by simp
  then show ?thesis using x by (cases "x = 0") (simp_all add: round_double_def)
qed

lemma round_double_upper:
  assumes "0 < x"
  shows "round_double x \<le> 2 powi (ulp_exp x + 53)"
proof -
  let ?s = "(2::rat) powi ulp_exp x"
  have s: "0 < ?s" by simp
  have "x < 2 powi (ilog2 x + 1)" using assms by (rule ilog2_bounds)
  also have "\<dots> \<le> 2 powi (ulp_exp x + 53)"
    by (intro power_int_increasing) (simp_all add: ulp_exp_def)
  also have "\<dots> = 2 ^ 53 * ?s" by (simp add: power_int_add)
  finally have "x / ?s \<le> of_int (2 ^ 53)" using s by (simp add: field_simps)
  then have "round_half_even (x / ?s) \<le> 2 ^ 53"
    using round_half_even_mono [of "x / ?s" "of_int (2 ^ 53)"] by (simp only: round_half_even_of_int)
  then have "(of_int (round_half_even (x / ?s)) :: rat) \<le> of_int (2 ^ 53)"
    by (simp only: of_int_le_iff)
  then have "of_int (round_half_even (x / ?s)) * ?s \<le> 2 ^ 53 * ?s"
    using s by (simp add: mult_right_mono)
  then show ?thesis using assms by (simp add: round_double_def power_int_add)
qed

lemma round_double_lower:
  assumes "0 < x" "- 1074 < ulp_exp x"
  shows "2 powi (ulp_exp x + 52) \<le> round_double x"
proof -
  let ?s = "(2::rat) powi ulp_exp x"
  have s: "0 < ?s" by simp
  have e: "ulp_exp x = ilog2 x - 52" using assms(2) by (simp add: ulp_exp_def max_def split: if_splits)
  have "2 ^ 52 * ?s = 2 powi ilog2 x" by (simp add: e power_int_diff)
  also have "\<dots> \<le> x" using assms(1) by (rule ilog2_bounds)
  finally have "of_int (2 ^ 52) \<le> x / ?s" using s by (simp add: field_simps)
  then have "2 ^ 52 \<le> round_half_even (x / ?s)"
    using round_half_even_mono [of "of_int (2 ^ 52)" "x / ?s"] by (simp only: round_half_even_of_int)
  then have "(of_int (2 ^ 52) :: rat) \<le> of_int (round_half_even (x / ?s))"
    by (simp only: of_int_le_iff)
  then have "2 ^ 52 * ?s \<le> of_int (round_half_even (x / ?s)) * ?s"
    using s by (simp add: mult_right_mono)
  then show ?thesis using assms by (simp add: round_double_def power_int_add)
qed

lemma round_double_mono:
  assumes "0 \<le> x" "x \<le> y"
  shows "round_double x \<le> round_double y"
proof (cases "x = 0")
  case True
  then show ?thesis using assms round_double_nonneg [of y] by (simp add: round_double_def)
next
  case False
  then have x: "0 < x" and y: "0 < y" using assms by simp_all
  have le: "ulp_exp x \<le> ulp_exp y" using x assms(2) by (rule ulp_exp_mono)
  show ?thesis
  proof (cases "ulp_exp x = ulp_exp y")
    case True
    let ?s = "(2::rat) powi ulp_exp y"
    have s: "0 < ?s" by simp
    have "x / ?s \<le> y / ?s" using assms(2) s by (simp add: divide_right_mono)
    then have "round_half_even (x / ?s) \<le> round_half_even (y / ?s)" by (rule round_half_even_mono)
    then have "(of_int (round_half_even (x / ?s)) :: rat) \<le> of_int (round_half_even (y / ?s))"
      by (simp only: of_int_le_iff)
    then have "of_int (round_half_even (x / ?s)) * ?s \<le> of_int (round_half_even (y / ?s)) * ?s"
      using s by (simp add: mult_right_mono)
    then show ?thesis using x y True by (simp add: round_double_def)
  next
    case False
    then have lt: "ulp_exp x + 1 \<le> ulp_exp y" using le by simp
    have "- 1074 \<le> ulp_exp x" by (simp add: ulp_exp_def)
    then have big: "- 1074 < ulp_exp y" using lt by simp
    have "round_double x \<le> 2 powi (ulp_exp x + 53)" using x by (rule round_double_upper)
    also have "\<dots> \<le> 2 powi (ulp_exp y + 52)"
      using lt by (intro power_int_increasing) simp_all
    also have "\<dots> \<le> round_double y" using y big by (rule round_double_lower)
    finally show ?thesis .
  qed
qed


subsection \<open>The percentage\<close>

lemma round_double_1: "round_double 1 = 1"
  by code_simp

lemma round_double_100: "round_double 100 = 100"
  by code_simp

lemma not_overflows_small: "\<bar>x\<bar> \<le> 100 \<Longrightarrow> \<not> overflows x"
proof -
  assume "\<bar>x\<bar> \<le> 100"
  moreover have "(100::rat) < 2 ^ 1024" by simp
  ultimately show ?thesis by (simp add: overflows_def)
qed

lemma percentage_eq:
  assumes "0 < t" "p \<le> t"
  shows "percentage p t = Inr \<lfloor>round_double (round_double (of_nat p / of_nat t) * 100)\<rfloor>"
    and "0 \<le> round_double (of_nat p / of_nat t)"
    and "round_double (of_nat p / of_nat t) \<le> 1"
    and "0 \<le> round_double (round_double (of_nat p / of_nat t) * 100)"
    and "round_double (round_double (of_nat p / of_nat t) * 100) \<le> 100"
proof -
  let ?x = "(of_nat p / of_nat t :: rat)"
  let ?q = "round_double ?x"
  let ?r = "round_double (?q * 100)"
  have x0: "0 \<le> ?x" by simp
  have x1: "?x \<le> 1" using assms by simp
  show q0: "0 \<le> ?q" using x0 by (rule round_double_nonneg)
  show q1: "?q \<le> 1" using round_double_mono [OF x0 x1] by (simp add: round_double_1)
  have y0: "0 \<le> ?q * 100" using q0 by simp
  have y1: "?q * 100 \<le> 100" using q1 by simp
  show r0: "0 \<le> ?r" using y0 by (rule round_double_nonneg)
  show r1: "?r \<le> 100" using round_double_mono [OF y0 y1] by (simp add: round_double_100)
  have nq: "\<not> overflows ?q" using q0 q1 by (intro not_overflows_small) simp
  have nr: "\<not> overflows ?r" using r0 r1 by (intro not_overflows_small) simp
  have "truediv (int p) (int t) = Inr ?q"
    using assms(1) nq by (simp add: truediv_def Let_def)
  moreover have "float_mul ?q 100 = Some ?r"
    using nr by (simp add: float_mul_def Let_def)
  ultimately show "percentage p t = Inr \<lfloor>?r\<rfloor>"
    using r0 by (simp add: percentage_def int_of_float_def)
qed

lemma percentage_range:
  assumes "0 < t" "p \<le> t" "percentage p t = Inr v"
  shows "0 \<le> v \<and> v \<le> 100"
proof -
  have "v = \<lfloor>round_double (round_double (of_nat p / of_nat t) * 100)\<rfloor>"
    using percentage_eq(1) [OF assms(1,2)] assms(3) by simp
  then show ?thesis
    using percentage_eq(4,5) [OF assms(1,2)] by (simp add: floor_le_iff le_floor_iff)
qed

lemma percentage_mono:
  assumes "0 < t" "p \<le> p'" "p' \<le> t" "percentage p t = Inr v" "percentage p' t = Inr v'"
  shows "v \<le> v'"
proof -
  have pt: "p \<le> t" using assms by simp
  let ?x = "(of_nat p / of_nat t :: rat)" and ?x' = "(of_nat p' / of_nat t :: rat)"
  have "?x \<le> ?x'" using assms(1,2) by (simp add: divide_right_mono)
  then have "round_double ?x \<le> round_double ?x'" by (intro round_double_mono) simp_all
  then have "round_double ?x * 100 \<le> round_double ?x' * 100" by simp
  then have "round_double (round_double ?x * 100) \<le> round_double (round_double ?x' * 100)"
    using percentage_eq(2) [OF assms(1) pt] by (intro round_double_mono) simp_all
  then have "\<lfloor>round_double (round_double ?x * 100)\<rfloor> \<le> \<lfloor>round_double (round_double ?x' * 100)\<rfloor>"
    by (rule floor_mono)
  then show ?thesis
    using percentage_eq(1) [OF assms(1) pt] percentage_eq(1) [OF assms(1,3)] assms(4,5) by simp
qed

lemma percentage_full:
  assumes "0 < t"
  shows "percentage t t = Inr 100"
proof -
  have "(of_nat t / of_nat t :: rat) = 1" using assms by simp
  then show ?thesis
    using percentage_eq(1) [OF assms, of t] by (simp add: round_double_1 round_double_100)
qed

section \<open>Properties of the worker\<close>

subsection \<open>Traces\<close>

lemma notifications_append [simp]: "notifications (xs @ ys) = notifications xs @ notifications ys"
  by (induction xs rule: notifications.induct) simp_all

lemma sent_append [simp]: "sent (xs @ ys) = sent xs @ sent ys"
  by (induction xs rule: sent.induct) simp_all

lemma returned_append [simp]: "returned (xs @ ys) = returned xs @ returned ys"
  by (induction xs rule: returned.induct) simp_all

lemma progress_values_append [simp]:
  "progress_values (xs @ ys) = progress_values xs @ progress_values ys"
  by (induction xs rule: progress_values.induct) simp_all

lemma progress_values_map [simp]: "progress_values (map Progress vs) = vs"
  by (induction vs) simp_all

subsection \<open>The loops\<close>

lemma call_translate_trace:
  "call_translate env src tgt t st = (r, st') \<Longrightarrow> trace st' = trace st @ [Call_translate t r]"
  by (auto simp: call_translate_def split: prod.splits)

lemma assign_trace:
  "assign env v st = (r, st') \<Longrightarrow> trace st' = trace st @ [Assign v r]"
  by (auto simp: assign_def split: prod.splits)

lemma translate_paragraphs_trace:
  "translate_paragraphs env src tgt ps st = (r, ps', st') \<Longrightarrow>
     \<exists>new. trace st' = trace st @ new \<and> notifications new = [] \<and> list_all in_loop new"
proof (induction ps arbitrary: st r ps' st')
  case Nil
  then show ?case by simp
next
  case (Cons p ps)
  show ?case
  proof (cases "strip (para_text p) \<noteq> []")
    case False
    with Cons.prems obtain ps1 where "translate_paragraphs env src tgt ps st = (r, ps1, st')"
      by (auto split: prod.splits)
    then show ?thesis by (rule Cons.IH)
  next
    case True
    obtain r1 st1 where c: "call_translate env src tgt (para_text p) st = (r1, st1)"
      by (cases "call_translate env src tgt (para_text p) st")
    note t1 = call_translate_trace [OF c]
    show ?thesis
    proof (cases r1)
      case (Inl e)
      with Cons.prems True c have "st' = st1" by simp
      then show ?thesis using t1 by simp
    next
      case (Inr t)
      obtain r2 st2 where a: "assign env t st1 = (r2, st2)" by (cases "assign env t st1")
      note t2 = assign_trace [OF a]
      show ?thesis
      proof (cases r2)
        case (Some e)
        with Cons.prems True c Inr a have "st' = st2" by simp
        then show ?thesis using t1 t2 by simp
      next
        case None
        with Cons.prems True c Inr a obtain ps1 where
          "translate_paragraphs env src tgt ps st2 = (r, ps1, st')"
          by (auto split: prod.splits)
        from Cons.IH [OF this] obtain new where
          "trace st' = trace st2 @ new" "notifications new = []" "list_all in_loop new"
          by blast
        then show ?thesis using t1 t2 by simp
      qed
    qed
  qed
qed

lemma translate_shape_trace:
  "translate_shape env src tgt sh st = (r, sh', st') \<Longrightarrow>
     \<exists>new. trace st' = trace st @ new \<and> notifications new = [] \<and> list_all in_loop new"
  unfolding translate_shape_def
  by (auto split: option.splits if_splits prod.splits sum.splits
      dest!: call_translate_trace assign_trace translate_paragraphs_trace)

lemma call_print_trace:
  "call_print env s st = (r, st') \<Longrightarrow> trace st' = trace st @ [Print s r]"
  by (auto simp: call_print_def split: prod.splits)

text \<open>
  One pass either counts the shape and emits its Progress, or ends with the exception
  of the handler's \<open>print\<close>, the count as it was and nothing emitted.
\<close>

lemma process_shape_spec:
  assumes "Suc k \<le> N" "process_shape env src tgt N sh k st = (r, sh', k', st')"
  shows "\<exists>new. trace st' = trace st @ new \<and> list_all in_loop new \<and>
           ((r = None \<and> k' = Suc k \<and>
             (\<exists>v. notifications new = [Progress v] \<and> percentage (Suc k) N = Inr v)) \<or>
            (\<exists>e x. r = Some e \<and> k' = k \<and> notifications new = [] \<and> Print x (Some e) \<in> set new))"
proof -
  obtain r1 sh1 st1 where ts: "translate_shape env src tgt sh st = (r1, sh1, st1)"
    by (cases "translate_shape env src tgt sh st")
  from translate_shape_trace [OF ts] obtain new1 where
    new1: "trace st1 = trace st @ new1" "notifications new1 = []" "list_all in_loop new1"
    by blast
  from assms(1) have "0 < N" by simp
  from percentage_eq(1) [OF this assms(1)] obtain v where v: "percentage (Suc k) N = Inr v"
    by blast
  show ?thesis
  proof (cases r1)
    case None
    with ts v assms(2) have res: "r = None" "k' = Suc k" "st' = emit (Progress v) st1"
      by (simp_all add: process_shape_def)
    have "trace st' = trace st @ (new1 @ [Emit (Progress v)])"
      using res new1 by (simp add: emit_def)
    moreover have "list_all in_loop (new1 @ [Emit (Progress v)])" using new1 by simp
    moreover have "notifications (new1 @ [Emit (Progress v)]) = [Progress v]" using new1 by simp
    ultimately show ?thesis using res v by blast
  next
    case (Some e1)
    let ?msg = "''Error processing shape: '' @ e1"
    obtain r2 st2 where pr: "call_print env ?msg st1 = (r2, st2)"
      by (cases "call_print env ?msg st1")
    note t2 = call_print_trace [OF pr]
    show ?thesis
    proof (cases r2)
      case None
      with ts Some pr v assms(2) have res: "r = None" "k' = Suc k" "st' = emit (Progress v) st2"
        by (simp_all add: process_shape_def)
      have "trace st' = trace st @ (new1 @ [Print ?msg None, Emit (Progress v)])"
        using res new1 t2 None by (simp add: emit_def)
      moreover have "list_all in_loop (new1 @ [Print ?msg None, Emit (Progress v)])"
        using new1 by simp
      moreover have "notifications (new1 @ [Print ?msg None, Emit (Progress v)]) = [Progress v]"
        using new1 by simp
      ultimately show ?thesis using res v by blast
    next
      case e2: (Some e2)
      with ts Some pr assms(2) have res: "r = Some e2" "k' = k" "st' = st2"
        by (simp_all add: process_shape_def)
      have "trace st' = trace st @ (new1 @ [Print ?msg (Some e2)])"
        using res new1 t2 e2 by simp
      moreover have "list_all in_loop (new1 @ [Print ?msg (Some e2)])" using new1 by simp
      moreover have "notifications (new1 @ [Print ?msg (Some e2)]) = []" using new1 by simp
      moreover have "Print ?msg (Some e2) \<in> set (new1 @ [Print ?msg (Some e2)])" by simp
      ultimately show ?thesis using res by blast
    qed
  qed
qed

text \<open>
  The loop over the shapes of a slide: it emits the Progress values of the counts it
  reaches, one after the other, and ends with an exception only where a \<open>print\<close> raised.
\<close>

lemma run_shapes_spec:
  assumes "k + length shs \<le> N" "run_shapes env src tgt N shs k st = (r, shs', k', st')"
  shows "\<exists>new vs. length shs' = length shs \<and>
           trace st' = trace st @ new \<and>
           notifications new = map Progress vs \<and> list_all in_loop new \<and>
           k \<le> k' \<and> k' \<le> k + length shs \<and>
           map Inr vs = map (\<lambda>i. percentage i N) [Suc k..<Suc k'] \<and>
           (r = None \<longrightarrow> k' = k + length shs) \<and>
           (\<forall>e. r = Some e \<longrightarrow> (\<exists>x. Print x (Some e) \<in> set new))"
  using assms
proof (induction shs arbitrary: k st r shs' k' st')
  case Nil
  then have "r = None" "shs' = []" "k' = k" "st' = st" by simp_all
  then show ?case by (intro exI [of _ "[]"]) simp
next
  case (Cons sh shs)
  from Cons.prems(1) have k1: "Suc k \<le> N" and rest: "Suc k + length shs \<le> N" by simp_all
  obtain r1 sh1 k1 st1 where ps: "process_shape env src tgt N sh k st = (r1, sh1, k1, st1)"
    by (cases "process_shape env src tgt N sh k st") auto
  from process_shape_spec [OF k1 ps] obtain new1 where
    t1: "trace st1 = trace st @ new1" and l1: "list_all in_loop new1"
    and alt: "(r1 = None \<and> k1 = Suc k \<and>
                (\<exists>v. notifications new1 = [Progress v] \<and> percentage (Suc k) N = Inr v)) \<or>
              (\<exists>e x. r1 = Some e \<and> k1 = k \<and> notifications new1 = [] \<and> Print x (Some e) \<in> set new1)"
    by blast
  from alt show ?case
  proof
    assume "\<exists>e x. r1 = Some e \<and> k1 = k \<and> notifications new1 = [] \<and> Print x (Some e) \<in> set new1"
    then obtain e x where e: "r1 = Some e" "k1 = k" "notifications new1 = []"
      "Print x (Some e) \<in> set new1"
      by blast
    with Cons.prems(2) ps have res: "r = Some e" "shs' = sh1 # shs" "k' = k" "st' = st1"
      by simp_all
    have "notifications new1 = map Progress []" using e by simp
    moreover have "map Inr [] = map (\<lambda>i. percentage i N) [Suc k..<Suc k']" using res by simp
    ultimately show ?thesis using res t1 l1 e(4)
      by (intro exI [of _ new1] exI [of _ "[]"]) auto
  next
    assume "r1 = None \<and> k1 = Suc k \<and>
      (\<exists>v. notifications new1 = [Progress v] \<and> percentage (Suc k) N = Inr v)"
    then obtain v where ok: "r1 = None" "k1 = Suc k" "notifications new1 = [Progress v]"
      "percentage (Suc k) N = Inr v"
      by blast
    with Cons.prems(2) ps obtain shs1 where
      loop: "run_shapes env src tgt N shs (Suc k) st1 = (r, shs1, k', st')"
      and shs': "shs' = sh1 # shs1"
      by (auto split: prod.splits)
    from Cons.IH [OF rest loop] obtain new2 vs where
      len: "length shs1 = length shs"
      and t2: "trace st' = trace st1 @ new2"
      and n2: "notifications new2 = map Progress vs" "list_all in_loop new2"
      and kk: "Suc k \<le> k'" "k' \<le> Suc k + length shs"
      and vs: "map Inr vs = map (\<lambda>i. percentage i N) [Suc (Suc k)..<Suc k']"
      and r0: "r = None \<longrightarrow> k' = Suc k + length shs"
      and re: "\<forall>e. r = Some e \<longrightarrow> (\<exists>x. Print x (Some e) \<in> set new2)"
      by blast
    have idx: "[Suc k..<Suc k'] = Suc k # [Suc (Suc k)..<Suc k']"
    proof -
      have "Suc k < Suc k'" using kk(1) by simp
      from upt_conv_Cons [OF this] show ?thesis .
    qed
    have "length shs' = length (sh # shs)" using shs' len by simp
    moreover have "trace st' = trace st @ (new1 @ new2)" using t1 t2 by simp
    moreover have "notifications (new1 @ new2) = map Progress (v # vs)" using ok n2 by simp
    moreover have "list_all in_loop (new1 @ new2)" using l1 n2 by simp
    moreover have "k \<le> k'" "k' \<le> k + length (sh # shs)" using kk by simp_all
    moreover have "map Inr (v # vs) = map (\<lambda>i. percentage i N) [Suc k..<Suc k']"
      unfolding idx using ok vs by simp
    moreover have "r = None \<longrightarrow> k' = k + length (sh # shs)" using r0 by simp
    moreover have "\<forall>e. r = Some e \<longrightarrow> (\<exists>x. Print x (Some e) \<in> set (new1 @ new2))"
      using re by auto
    ultimately show ?thesis by blast
  qed
qed

lemma run_slides_spec:
  assumes "k + sum_list (map (\<lambda>slide. length (shapes slide)) sls) \<le> N"
    and "run_slides env src tgt N sls k st = (r, sls', k', st')"
  shows "\<exists>new vs.
           map (\<lambda>slide. length (shapes slide)) sls' = map (\<lambda>slide. length (shapes slide)) sls \<and>
           trace st' = trace st @ new \<and>
           notifications new = map Progress vs \<and> list_all in_loop new \<and>
           k \<le> k' \<and> k' \<le> k + sum_list (map (\<lambda>slide. length (shapes slide)) sls) \<and>
           map Inr vs = map (\<lambda>i. percentage i N) [Suc k..<Suc k'] \<and>
           (r = None \<longrightarrow> k' = k + sum_list (map (\<lambda>slide. length (shapes slide)) sls)) \<and>
           (\<forall>e. r = Some e \<longrightarrow> (\<exists>x. Print x (Some e) \<in> set new))"
  using assms
proof (induction sls arbitrary: k st r sls' k' st')
  case Nil
  then have "r = None" "sls' = []" "k' = k" "st' = st" by simp_all
  then show ?case by (intro exI [of _ "[]"]) simp
next
  case (Cons sl sls)
  let ?n = "length (shapes sl)"
  let ?m = "sum_list (map (\<lambda>slide. length (shapes slide)) sls)"
  from Cons.prems(1) have a: "k + ?n \<le> N" by simp
  obtain r1 shs1 k1 st1 where rs: "run_shapes env src tgt N (shapes sl) k st = (r1, shs1, k1, st1)"
    by (cases "run_shapes env src tgt N (shapes sl) k st") auto
  from run_shapes_spec [OF a rs] obtain new1 vs1 where
    len: "length shs1 = ?n"
    and t1: "trace st1 = trace st @ new1"
    and n1: "notifications new1 = map Progress vs1" "list_all in_loop new1"
    and kk1: "k \<le> k1" "k1 \<le> k + ?n"
    and vs1: "map Inr vs1 = map (\<lambda>i. percentage i N) [Suc k..<Suc k1]"
    and r10: "r1 = None \<longrightarrow> k1 = k + ?n"
    and r1e: "\<forall>e. r1 = Some e \<longrightarrow> (\<exists>x. Print x (Some e) \<in> set new1)"
    by blast
  show ?case
  proof (cases r1)
    case (Some e)
    with Cons.prems(2) rs have res: "r = Some e" "sls' = sl\<lparr>shapes := shs1\<rparr> # sls" "k' = k1" "st' = st1"
      by simp_all
    have "map (\<lambda>slide. length (shapes slide)) sls' = map (\<lambda>slide. length (shapes slide)) (sl # sls)"
      using res len by simp
    moreover have "k' \<le> k + sum_list (map (\<lambda>slide. length (shapes slide)) (sl # sls))"
      using res kk1 by simp
    moreover have "\<forall>e'. r = Some e' \<longrightarrow> (\<exists>x. Print x (Some e') \<in> set new1)"
      using res r1e Some by simp
    ultimately show ?thesis using res t1 n1 kk1(1) vs1
      by (intro exI [of _ new1] exI [of _ vs1]) simp
  next
    case None
    with r10 have k1: "k1 = k + ?n" by simp
    from Cons.prems(1) have b: "k1 + ?m \<le> N" by (simp add: k1)
    from None Cons.prems(2) rs obtain sls1 where
      loop: "run_slides env src tgt N sls k1 st1 = (r, sls1, k', st')"
      and sls': "sls' = sl\<lparr>shapes := shs1\<rparr> # sls1"
      by (auto split: prod.splits)
    from Cons.IH [OF b loop] obtain new2 vs2 where
      lens: "map (\<lambda>slide. length (shapes slide)) sls1 = map (\<lambda>slide. length (shapes slide)) sls"
      and t2: "trace st' = trace st1 @ new2"
      and n2: "notifications new2 = map Progress vs2" "list_all in_loop new2"
      and kk2: "k1 \<le> k'" "k' \<le> k1 + ?m"
      and vs2: "map Inr vs2 = map (\<lambda>i. percentage i N) [Suc k1..<Suc k']"
      and r0: "r = None \<longrightarrow> k' = k1 + ?m"
      and re: "\<forall>e. r = Some e \<longrightarrow> (\<exists>x. Print x (Some e) \<in> set new2)"
      by blast
    have idx: "[Suc k..<Suc k'] = [Suc k..<Suc k1] @ [Suc k1..<Suc k']"
    proof -
      have e: "Suc k1 + (k' - k1) = Suc k'" using kk2(1) by simp
      have "Suc k \<le> Suc k1" using kk1(1) by simp
      from upt_add_eq_append [OF this, of "k' - k1"] show ?thesis unfolding e .
    qed
    have "map (\<lambda>slide. length (shapes slide)) sls' = map (\<lambda>slide. length (shapes slide)) (sl # sls)"
      using sls' len lens by simp
    moreover have "trace st' = trace st @ (new1 @ new2)" using t1 t2 by simp
    moreover have "notifications (new1 @ new2) = map Progress (vs1 @ vs2)" using n1 n2 by simp
    moreover have "list_all in_loop (new1 @ new2)" using n1 n2 by simp
    moreover have "k \<le> k'" "k' \<le> k + sum_list (map (\<lambda>slide. length (shapes slide)) (sl # sls))"
      using kk1 kk2 k1 by simp_all
    moreover have "map Inr (vs1 @ vs2) = map (\<lambda>i. percentage i N) [Suc k..<Suc k']"
      unfolding idx using vs1 vs2 by simp
    moreover have "r = None \<longrightarrow> k' = k + sum_list (map (\<lambda>slide. length (shapes slide)) (sl # sls))"
      using r0 k1 by simp
    moreover have "\<forall>e. r = Some e \<longrightarrow> (\<exists>x. Print x (Some e) \<in> set (new1 @ new2))"
      using re by auto
    ultimately show ?thesis by blast
  qed
qed

lemma in_loop_map_Progress: "list_all in_loop new \<Longrightarrow> \<exists>vs. notifications new = map Progress vs"
proof (induction new rule: notifications.induct)
  case 1
  then show ?case by simp
next
  case (2 n as)
  then obtain vs where "notifications as = map Progress vs" by auto
  moreover from 2 obtain v where "n = Progress v" by (cases n) simp_all
  ultimately have "notifications (Emit n # as) = map Progress (v # vs)" by simp
  then show ?case by blast
qed simp_all

text \<open>The values of a loop that reached the count \<open>k\<close>: one for each count from 1 to \<open>k\<close>.\<close>

lemma percentages_sorted:
  assumes "map Inr vs = map (\<lambda>i. percentage i N) [Suc 0..<Suc k]" "k \<le> N"
  shows "length vs = k" and "sorted vs" and "\<forall>v\<in>set vs. 0 \<le> v \<and> v \<le> 100"
    and "0 < N \<Longrightarrow> k = N \<Longrightarrow> last vs = 100"
proof -
  from assms(1) have "length (map Inr vs :: (string + int) list) = length [Suc 0..<Suc k]" by simp
  then show len: "length vs = k" by simp
  have nth: "percentage (Suc i) N = Inr (vs ! i)" if "i < k" for i
  proof -
    have "(map Inr vs :: (string + int) list) ! i = map (\<lambda>i. percentage i N) [Suc 0..<Suc k] ! i"
      using assms(1) by simp
    then show ?thesis using that len by (simp del: upt_Suc)
  qed
  show "sorted vs"
  proof (rule sorted_iff_nth_mono [THEN iffD2], intro allI impI)
    fix i j
    assume "i \<le> j" "j < length vs"
    then have "i < k" "j < k" using len by simp_all
    then show "vs ! i \<le> vs ! j"
      using percentage_mono [of N "Suc i" "Suc j" "vs ! i" "vs ! j"] nth \<open>i \<le> j\<close> assms(2)
      by simp
  qed
  show "\<forall>v\<in>set vs. 0 \<le> v \<and> v \<le> 100"
  proof
    fix v
    assume "v \<in> set vs"
    then obtain i where "i < k" "v = vs ! i" using len by (auto simp: in_set_conv_nth)
    then show "0 \<le> v \<and> v \<le> 100"
      using percentage_range [of N "Suc i" v] nth assms(2) by simp
  qed
  show "last vs = 100" if "0 < N" "k = N"
  proof -
    have "vs \<noteq> []" using len that by auto
    then have "last vs = vs ! (N - 1)" using len that by (simp add: last_conv_nth)
    moreover have "percentage (Suc (N - 1)) N = Inr (vs ! (N - 1))" using that by (intro nth) simp
    ultimately show ?thesis using percentage_full [OF that(1)] that by simp
  qed
qed

lemma call_GoogleTranslator_eq:
  "GoogleTranslator env s t (world st) = (r, w) \<Longrightarrow>
     call_GoogleTranslator env s t st = (r, \<lparr>world = w, trace = trace st @ [Call_GoogleTranslator s t r]\<rparr>)"
  by (simp add: call_GoogleTranslator_def)

lemma call_Presentation_eq:
  "Presentation env p (world st) = (r, w) \<Longrightarrow>
     call_Presentation env p st =
       (r, \<lparr>world = w, trace = trace st @ [Call_Presentation p (case r of Inl e \<Rightarrow> Some e | Inr _ \<Rightarrow> None)]\<rparr>)"
  by (simp add: call_Presentation_def)

lemma call_save_eq:
  "save env prs p (world st) = (r, w) \<Longrightarrow>
     call_save env prs p st = (r, \<lparr>world = w, trace = trace st @ [Call_save prs p r]\<rparr>)"
  by (simp add: call_save_def)

subsection \<open>How a run can go\<close>

lemma run_no_translator:
  assumes "GoogleTranslator env (source self) (target self) (world st) = (Some e, w1)"
  shows "run env self st =
           \<lparr>world = w1,
            trace = trace st @
              [Call_GoogleTranslator (source self) (target self) (Some e), Emit (Error e)]\<rparr>"
  using call_GoogleTranslator_eq [OF assms] by (simp add: run_def emit_def)

lemma run_no_document:
  assumes "GoogleTranslator env (source self) (target self) (world st) = (None, w1)"
    and "Presentation env (input_file self) w1 = (Inl e, w2)"
  shows "run env self st =
           \<lparr>world = w2,
            trace = trace st @
              [Call_GoogleTranslator (source self) (target self) None,
               Call_Presentation (input_file self) (Some e), Emit (Error e)]\<rparr>"
proof -
  let ?st1 = "\<lparr>world = w1, trace = trace st @ [Call_GoogleTranslator (source self) (target self) None]\<rparr>"
  have "Presentation env (input_file self) (world ?st1) = (Inl e, w2)" using assms(2) by simp
  from call_Presentation_eq [OF this] call_GoogleTranslator_eq [OF assms(1)]
  show ?thesis by (simp add: run_def emit_def)
qed

text \<open>
  With the translator constructed and the document open, the loops run; the run then
  either saves and ends on the outcome of the save, or, where a \<open>print\<close> raised in the
  loops, ends on that exception without a save.
\<close>

lemma run_document:
  assumes "GoogleTranslator env (source self) (target self) (world st) = (None, w1)"
    and "Presentation env (input_file self) w1 = (Inr prs, w2)"
  shows "\<exists>r sls k st3 new vs.
           run_slides env (source self) (target self) (total_shapes_of prs) (slides prs) 0
               \<lparr>world = w2,
                trace = trace st @ [Call_GoogleTranslator (source self) (target self) None,
                                    Call_Presentation (input_file self) None]\<rparr> =
             (r, sls, k, st3) \<and>
           trace st3 = trace st @ [Call_GoogleTranslator (source self) (target self) None,
                                   Call_Presentation (input_file self) None] @ new \<and>
           notifications new = map Progress vs \<and> list_all in_loop new \<and>
           k \<le> total_shapes_of prs \<and>
           map Inr vs = map (\<lambda>i. percentage i (total_shapes_of prs)) [Suc 0..<Suc k] \<and>
           (r = None \<longrightarrow>
              k = total_shapes_of prs \<and>
              (\<exists>rs w4. save env (prs\<lparr>slides := sls\<rparr>) (output_file self) (world st3) = (rs, w4) \<and>
                 run env self st =
                   \<lparr>world = w4,
                    trace = trace st3 @
                      [Call_save (prs\<lparr>slides := sls\<rparr>) (output_file self) rs,
                       Emit (case rs of None \<Rightarrow> Finished | Some e \<Rightarrow> Error e)]\<rparr>)) \<and>
           (\<forall>e. r = Some e \<longrightarrow>
              (\<exists>x. Print x (Some e) \<in> set new) \<and>
              run env self st = \<lparr>world = world st3, trace = trace st3 @ [Emit (Error e)]\<rparr>)"
proof -
  let ?st1 = "\<lparr>world = w1, trace = trace st @ [Call_GoogleTranslator (source self) (target self) None]\<rparr>"
  let ?st2 = "\<lparr>world = w2,
               trace = trace st @ [Call_GoogleTranslator (source self) (target self) None,
                                   Call_Presentation (input_file self) None]\<rparr>"
  let ?N = "total_shapes_of prs"
  have g: "call_GoogleTranslator env (source self) (target self) st = (None, ?st1)"
    using call_GoogleTranslator_eq [OF assms(1)] .
  have "Presentation env (input_file self) (world ?st1) = (Inr prs, w2)" using assms(2) by simp
  from call_Presentation_eq [OF this]
  have p: "call_Presentation env (input_file self) ?st1 = (Inr prs, ?st2)" by simp
  obtain r sls k st3 where
    loop: "run_slides env (source self) (target self) ?N (slides prs) 0 ?st2 = (r, sls, k, st3)"
    by (cases "run_slides env (source self) (target self) ?N (slides prs) 0 ?st2") auto
  have "0 + sum_list (map (\<lambda>slide. length (shapes slide)) (slides prs)) \<le> ?N"
    by (simp add: total_shapes_of_def)
  from run_slides_spec [OF this loop] obtain new vs where
    tr: "trace st3 = trace ?st2 @ new"
    and new: "notifications new = map Progress vs" "list_all in_loop new"
    and k': "k \<le> 0 + sum_list (map (\<lambda>slide. length (shapes slide)) (slides prs))"
    and vs: "map Inr vs = map (\<lambda>i. percentage i ?N) [Suc 0..<Suc k]"
    and r0': "r = None \<longrightarrow> k = 0 + sum_list (map (\<lambda>slide. length (shapes slide)) (slides prs))"
    and re: "\<forall>e. r = Some e \<longrightarrow> (\<exists>x. Print x (Some e) \<in> set new)"
    by blast
  from k' have k: "k \<le> ?N" by (simp add: total_shapes_of_def)
  from r0' have r0: "r = None \<longrightarrow> k = ?N" by (simp add: total_shapes_of_def)
  have ok: "\<exists>rs w4. save env (prs\<lparr>slides := sls\<rparr>) (output_file self) (world st3) = (rs, w4) \<and>
      run env self st =
        \<lparr>world = w4,
         trace = trace st3 @
           [Call_save (prs\<lparr>slides := sls\<rparr>) (output_file self) rs,
            Emit (case rs of None \<Rightarrow> Finished | Some e \<Rightarrow> Error e)]\<rparr>"
    if "r = None"
  proof -
    obtain rs w4 where sv: "save env (prs\<lparr>slides := sls\<rparr>) (output_file self) (world st3) = (rs, w4)"
      by (cases "save env (prs\<lparr>slides := sls\<rparr>) (output_file self) (world st3)")
    have "run env self st =
        \<lparr>world = w4,
         trace = trace st3 @
           [Call_save (prs\<lparr>slides := sls\<rparr>) (output_file self) rs,
            Emit (case rs of None \<Rightarrow> Finished | Some e \<Rightarrow> Error e)]\<rparr>"
      using g p loop that call_save_eq [OF sv] by (cases rs) (simp_all add: run_def emit_def)
    with sv show ?thesis by blast
  qed
  have bad: "run env self st = \<lparr>world = world st3, trace = trace st3 @ [Emit (Error e)]\<rparr>"
    if "r = Some e" for e
    using g p loop that by (simp add: run_def emit_def)
  have "trace st3 = trace st @ [Call_GoogleTranslator (source self) (target self) None,
      Call_Presentation (input_file self) None] @ new"
    using tr by simp
  moreover have "r = None \<longrightarrow>
      k = ?N \<and>
      (\<exists>rs w4. save env (prs\<lparr>slides := sls\<rparr>) (output_file self) (world st3) = (rs, w4) \<and>
         run env self st =
           \<lparr>world = w4,
            trace = trace st3 @
              [Call_save (prs\<lparr>slides := sls\<rparr>) (output_file self) rs,
               Emit (case rs of None \<Rightarrow> Finished | Some e \<Rightarrow> Error e)]\<rparr>)"
    using r0 ok by simp
  moreover have "\<forall>e. r = Some e \<longrightarrow>
      (\<exists>x. Print x (Some e) \<in> set new) \<and>
      run env self st = \<lparr>world = world st3, trace = trace st3 @ [Emit (Error e)]\<rparr>"
    using re bad by simp
  ultimately show ?thesis using loop new k vs
    by (intro exI [of _ r] exI [of _ sls] exI [of _ k] exI [of _ st3] exI [of _ new] exI [of _ vs] conjI)
qed

section \<open>The claims\<close>

lemma start_simps [simp]: "world (start w) = w" "trace (start w) = []"
  by (simp_all add: start_def)

text \<open>The signals of a run, started in any state.\<close>

lemma run_stream:
  fixes env :: "'w services"
  shows "\<exists>vs t. notifications (drop (length (trace st)) (trace (run env self st))) =
             map Progress vs @ [t] \<and> sorted vs \<and> (t = Finished \<or> (\<exists>e. t = Error e))"
proof -
  obtain g w1 where g: "GoogleTranslator env (source self) (target self) (world st) = (g, w1)"
    by (cases "GoogleTranslator env (source self) (target self) (world st)")
  show ?thesis
  proof (cases g)
    case (Some e)
    from run_no_translator [OF g [unfolded Some]]
    have "notifications (drop (length (trace st)) (trace (run env self st))) =
        map Progress [] @ [Error e]"
      by simp
    then show ?thesis by (intro exI conjI) (assumption, simp_all)
  next
    case None
    note g = g [unfolded None]
    obtain p w2 where p: "Presentation env (input_file self) w1 = (p, w2)"
      by (cases "Presentation env (input_file self) w1")
    show ?thesis
    proof (cases p)
      case (Inl e)
      from run_no_document [OF g p [unfolded Inl]]
      have "notifications (drop (length (trace st)) (trace (run env self st))) =
          map Progress [] @ [Error e]"
        by simp
      then show ?thesis by (intro exI conjI) (assumption, simp_all)
    next
      case (Inr prs)
      from run_document [OF g p [unfolded Inr]]
      obtain r sls k and st3 :: "'w state" and new vs where
        tr: "trace st3 = trace st @
               [Call_GoogleTranslator (source self) (target self) None,
                Call_Presentation (input_file self) None] @ new"
        and new: "notifications new = map Progress vs"
        and k: "k \<le> total_shapes_of prs"
        and vs: "map Inr vs = map (\<lambda>i. percentage i (total_shapes_of prs)) [Suc 0..<Suc k]"
        and ok: "r = None \<longrightarrow>
              (\<exists>rs w4. run env self st =
                   \<lparr>world = w4,
                    trace = trace st3 @
                      [Call_save (prs\<lparr>slides := sls\<rparr>) (output_file self) rs,
                       Emit (case rs of None \<Rightarrow> Finished | Some e \<Rightarrow> Error e)]\<rparr>)"
        and bad: "\<forall>e. r = Some e \<longrightarrow>
              run env self st = \<lparr>world = world st3, trace = trace st3 @ [Emit (Error e)]\<rparr>"
        by blast
      have sorted: "sorted vs" using vs k by (rule percentages_sorted)
      show ?thesis
      proof (cases r)
        case None
        with ok obtain rs w4 where
          run: "run env self st =
                   \<lparr>world = w4,
                    trace = trace st3 @
                      [Call_save (prs\<lparr>slides := sls\<rparr>) (output_file self) rs,
                       Emit (case rs of None \<Rightarrow> Finished | Some e \<Rightarrow> Error e)]\<rparr>"
          by blast
        let ?t = "case rs of None \<Rightarrow> Finished | Some e \<Rightarrow> Error e"
        have "notifications (drop (length (trace st)) (trace (run env self st))) =
            map Progress vs @ [?t]"
          using tr new run by simp
        moreover have "?t = Finished \<or> (\<exists>e. ?t = Error e)" by (cases rs) simp_all
        ultimately show ?thesis using sorted by blast
      next
        case (Some e)
        with bad have "run env self st = \<lparr>world = world st3, trace = trace st3 @ [Emit (Error e)]\<rparr>"
          by simp
        then have "notifications (drop (length (trace st)) (trace (run env self st))) =
            map Progress vs @ [Error e]"
          using tr new by simp
        then show ?thesis using sorted by blast
      qed
    qed
  qed
qed

text \<open>
  C1: the signals of a run are Progress signals with values that never decrease, then
  one terminal signal, Finished or Error, and nothing after it. This holds for every
  behaviour of the libraries and every thread object, from every world.
\<close>

theorem run_notification_stream:
  fixes env :: "'w services"
  shows "\<exists>vs t. run_notifications env self w = map Progress vs @ [t] \<and> sorted vs \<and>
          (t = Finished \<or> (\<exists>e. t = Error e))"
  using run_stream [of "start w" env self] by (simp add: run_notifications_def)

lemma run_slides_no_shapes:
  "\<forall>sl\<in>set sls. shapes sl = [] \<Longrightarrow> run_slides env src tgt N sls k st = (None, sls, k, st)"
  by (induction sls) simp_all

lemma percentage_zero_total: "percentage k 0 = Inl ''division by zero''"
  by (simp add: percentage_def truediv_def)

text \<open>
  C2, as amended: when the translator is constructed and the document opens with no
  shape at all, the loops do nothing, so that no percentage is computed (with a zero
  total it would raise), no Progress is emitted, and the run goes on to save; it emits
  one terminal signal, Finished when the save returns and Error with the exception's
  message when the save raises.
\<close>

theorem no_shapes_run:
  fixes env :: "'w services" and st :: "'w state"
  assumes "GoogleTranslator env (source self) (target self) w = (None, w1)"
    and "Presentation env (input_file self) w1 = (Inr prs, w2)"
    and "total_shapes_of prs = 0"
    and "save env prs (output_file self) w2 = (r, w3)"
  shows "run_slides env (source self) (target self) 0 (slides prs) 0 st = (None, slides prs, 0, st) \<and>
         trace (run env self (start w)) =
           [Call_GoogleTranslator (source self) (target self) None,
            Call_Presentation (input_file self) None,
            Call_save prs (output_file self) r,
            Emit (case r of None \<Rightarrow> Finished | Some e \<Rightarrow> Error e)] \<and>
         run_notifications env self w = [case r of None \<Rightarrow> Finished | Some e \<Rightarrow> Error e] \<and>
         percentage k 0 = Inl ''division by zero''"
proof -
  from assms(3) have empty: "\<forall>sl\<in>set (slides prs). shapes sl = []"
    by (auto simp: total_shapes_of_def)
  have loop: "run_slides env (source self) (target self) 0 (slides prs) 0 st' = (None, slides prs, 0, st')"
    for st' :: "'w state"
    using empty by (rule run_slides_no_shapes)
  have tr: "trace (run env self (start w)) =
           [Call_GoogleTranslator (source self) (target self) None,
            Call_Presentation (input_file self) None,
            Call_save prs (output_file self) r,
            Emit (case r of None \<Rightarrow> Finished | Some e \<Rightarrow> Error e)]"
    using assms loop
    by (cases r) (simp_all add: run_def call_GoogleTranslator_def call_Presentation_def
        call_save_def emit_def)
  then have "run_notifications env self w = [case r of None \<Rightarrow> Finished | Some e \<Rightarrow> Error e]"
    by (simp add: run_notifications_def)
  with loop tr percentage_zero_total show ?thesis by blast
qed

theorem no_shapes_run_witness:
  "total_shapes_of (deck []) = 0 \<and>
   run_notifications (disk_services []) (job ''in.pptx'' ''out.pptx'')
     (disk_with ''in.pptx'' (deck [])) = [Finished]"
proof -
  let ?d = "disk_with ''in.pptx'' (deck [])"
  let ?self = "job ''in.pptx'' ''out.pptx''"
  have g: "GoogleTranslator (disk_services []) (source ?self) (target ?self) ?d = (None, ?d)"
    by (simp add: disk_services_def)
  have p: "Presentation (disk_services []) (input_file ?self) ?d = (Inr (deck []), ?d)"
    by (simp add: disk_services_def disk_with_def job_def)
  have n: "total_shapes_of (deck []) = 0" by (simp add: total_shapes_of_def deck_def)
  have s: "save (disk_services []) (deck []) (output_file ?self) ?d =
      (None, ?d(output_file ?self := Some (deck [])))"
    by (simp add: disk_services_def)
  from no_shapes_run [OF g p n s] n show ?thesis by simp
qed

text \<open>
  The claim as it stands fails where the output cannot be written: the presentation has
  no shape and the run emits Error, not Finished.
\<close>

theorem no_shapes_locked_output:
  "total_shapes_of (deck []) = 0 \<and>
   run_notifications (disk_services [''out.pptx'']) (job ''in.pptx'' ''out.pptx'')
     (disk_with ''in.pptx'' (deck [])) = [Error ''Permission denied'']"
  by (simp add: total_shapes_of_def deck_def run_notifications_def run_def
      call_GoogleTranslator_def call_Presentation_def call_save_def emit_def
      disk_services_def disk_with_def job_def)

text \<open>
  C5: an exception raised by the construction of the translator, by the opening of the
  document or by the save ends the run with one Error signal that carries its message;
  only Progress signals come before it and no Finished is emitted.
\<close>

theorem fatal_exception_reported:
  fixes env :: "'w services"
  assumes "a \<in> set (trace (run env self (start w)))"
    and "a = Call_GoogleTranslator s t (Some e) \<or> a = Call_Presentation p (Some e) \<or>
         a = Call_save prs q (Some e)"
  shows "(\<exists>vs. run_notifications env self w = map Progress vs @ [Error e]) \<and>
         Finished \<notin> set (run_notifications env self w)"
proof -
  have out: "\<not> in_loop a" using assms(2) by auto
  have "\<exists>vs. run_notifications env self w = map Progress vs @ [Error e]"
  proof -
    obtain g w1 where g: "GoogleTranslator env (source self) (target self) (world (start w)) = (g, w1)"
      by (cases "GoogleTranslator env (source self) (target self) (world (start w))")
    show ?thesis
    proof (cases g)
      case (Some e')
      from run_no_translator [OF g [unfolded Some]] assms
      have "e' = e" by auto
      with run_no_translator [OF g [unfolded Some]]
      have "run_notifications env self w = map Progress [] @ [Error e]"
        by (simp add: run_notifications_def)
      then show ?thesis by blast
    next
      case None
      note g = g [unfolded None]
      obtain p' w2 where p: "Presentation env (input_file self) w1 = (p', w2)"
        by (cases "Presentation env (input_file self) w1")
      show ?thesis
      proof (cases p')
        case (Inl e')
        from run_no_document [OF g p [unfolded Inl]] assms
        have "e' = e" by auto
        with run_no_document [OF g p [unfolded Inl]]
        have "run_notifications env self w = map Progress [] @ [Error e]"
          by (simp add: run_notifications_def)
        then show ?thesis by blast
      next
        case (Inr doc)
        from run_document [OF g p [unfolded Inr]]
        obtain r sls k and st3 :: "'w state" and new vs where
          tr: "trace st3 = trace (start w) @
                 [Call_GoogleTranslator (source self) (target self) None,
                  Call_Presentation (input_file self) None] @ new"
          and new: "notifications new = map Progress vs" "list_all in_loop new"
          and ok: "r = None \<longrightarrow>
              (\<exists>rs w4. run env self (start w) =
                   \<lparr>world = w4,
                    trace = trace st3 @
                      [Call_save (doc\<lparr>slides := sls\<rparr>) (output_file self) rs,
                       Emit (case rs of None \<Rightarrow> Finished | Some e \<Rightarrow> Error e)]\<rparr>)"
          and bad: "\<forall>e. r = Some e \<longrightarrow>
              run env self (start w) = \<lparr>world = world st3, trace = trace st3 @ [Emit (Error e)]\<rparr>"
          by blast
        have notin: "a \<notin> set new" using new(2) out by (auto simp: list_all_iff)
        show ?thesis
        proof (cases r)
          case None
          with ok obtain rs w4 where
            run: "run env self (start w) =
                   \<lparr>world = w4,
                    trace = trace st3 @
                      [Call_save (doc\<lparr>slides := sls\<rparr>) (output_file self) rs,
                       Emit (case rs of None \<Rightarrow> Finished | Some e \<Rightarrow> Error e)]\<rparr>"
            by blast
          from notin assms tr run have "rs = Some e" by auto
          then have "run_notifications env self w = map Progress vs @ [Error e]"
            using tr new run by (simp add: run_notifications_def)
          then show ?thesis by blast
        next
          case (Some e')
          with bad have "run env self (start w) =
              \<lparr>world = world st3, trace = trace st3 @ [Emit (Error e')]\<rparr>"
            by simp
          with notin assms tr have False by auto
          then show ?thesis ..
        qed
      qed
    qed
  qed
  then show ?thesis by auto
qed

theorem fatal_exception_reported_witness:
  "Call_Presentation ''missing.pptx'' (Some ''Package not found at missing.pptx'')
     \<in> set (trace (run (disk_services []) (job ''missing.pptx'' ''out.pptx'')
                 (start (disk_with ''in.pptx'' (deck []))))) \<and>
   run_notifications (disk_services []) (job ''missing.pptx'' ''out.pptx'')
     (disk_with ''in.pptx'' (deck [])) = [Error ''Package not found at missing.pptx'']"
proof -
  let ?a = "Call_Presentation ''missing.pptx'' (Some ''Package not found at missing.pptx'')"
  let ?self = "job ''missing.pptx'' ''out.pptx''"
  let ?d = "disk_with ''in.pptx'' (deck [])"
  have m: "?a \<in> set (trace (run (disk_services []) ?self (start ?d)))"
    by (simp add: run_def call_GoogleTranslator_def call_Presentation_def emit_def
        disk_services_def disk_with_def job_def)
  have d: "?a = Call_GoogleTranslator [] [] (Some ''Package not found at missing.pptx'') \<or>
      ?a = Call_Presentation ''missing.pptx'' (Some ''Package not found at missing.pptx'') \<or>
      ?a = Call_save (deck []) [] (Some ''Package not found at missing.pptx'')"
    by simp
  from fatal_exception_reported [OF m d]
  obtain vs where "run_notifications (disk_services []) ?self ?d =
      map Progress vs @ [Error ''Package not found at missing.pptx'']"
    by blast
  moreover have "length (run_notifications (disk_services []) ?self ?d) = 1"
    by (simp add: run_notifications_def run_def call_GoogleTranslator_def call_Presentation_def
        emit_def disk_services_def disk_with_def job_def)
  ultimately have "vs = []" by simp
  with \<open>run_notifications (disk_services []) ?self ?d =
      map Progress vs @ [Error ''Package not found at missing.pptx'']\<close> m
  show ?thesis by simp
qed

subsection \<open>Shapes that do not fail\<close>

lemma process_shape_translated:
  assumes "translate_shape env src tgt sh st = (None, sh', st1)" "Suc k \<le> N"
  shows "\<exists>v. percentage (Suc k) N = Inr v \<and>
           process_shape env src tgt N sh k st = (None, sh', Suc k, emit (Progress v) st1)"
proof -
  from assms(2) have "0 < N" by simp
  from percentage_eq(1) [OF this assms(2)] obtain v where "percentage (Suc k) N = Inr v"
    by blast
  then show ?thesis using assms(1) by (simp add: process_shape_def)
qed

lemma run_shapes_quiet:
  assumes "\<forall>sh\<in>set shs. \<forall>st. fst (translate_shape env src tgt sh st) = None"
    and "k + length shs \<le> N"
  shows "fst (run_shapes env src tgt N shs k st) = None"
  using assms
proof (induction shs arbitrary: k st)
  case Nil
  then show ?case by simp
next
  case (Cons sh shs)
  from Cons.prems(2) have k1: "Suc k \<le> N" and rest: "Suc k + length shs \<le> N" by simp_all
  obtain r1 sh1 st1 where ts: "translate_shape env src tgt sh st = (r1, sh1, st1)"
    by (cases "translate_shape env src tgt sh st")
  with Cons.prems(1) have "r1 = None" by (metis fst_conv list.set_intros(1))
  with ts process_shape_translated [OF _ k1] obtain v where
    ps: "process_shape env src tgt N sh k st = (None, sh1, Suc k, emit (Progress v) st1)"
    by blast
  obtain r2 shs2 k2 st2 where
    rec: "run_shapes env src tgt N shs (Suc k) (emit (Progress v) st1) = (r2, shs2, k2, st2)"
    by (cases "run_shapes env src tgt N shs (Suc k) (emit (Progress v) st1)") auto
  have "fst (run_shapes env src tgt N shs (Suc k) (emit (Progress v) st1)) = None"
    using Cons.prems(1) rest by (intro Cons.IH) simp_all
  with rec have "r2 = None" by simp
  then show ?case using ps rec by simp
qed

lemma run_slides_quiet:
  assumes "\<forall>sl\<in>set sls. \<forall>sh\<in>set (shapes sl). \<forall>st. fst (translate_shape env src tgt sh st) = None"
    and "k + sum_list (map (\<lambda>slide. length (shapes slide)) sls) \<le> N"
  shows "fst (run_slides env src tgt N sls k st) = None"
  using assms
proof (induction sls arbitrary: k st)
  case Nil
  then show ?case by simp
next
  case (Cons sl sls)
  let ?n = "length (shapes sl)"
  from Cons.prems(2) have a: "k + ?n \<le> N" by simp
  obtain r1 shs1 k1 st1 where rs: "run_shapes env src tgt N (shapes sl) k st = (r1, shs1, k1, st1)"
    by (cases "run_shapes env src tgt N (shapes sl) k st") auto
  have "fst (run_shapes env src tgt N (shapes sl) k st) = None"
    using Cons.prems(1) a by (intro run_shapes_quiet) simp_all
  with rs have r1: "r1 = None" by simp
  from run_shapes_spec [OF a rs] r1 have k1: "k1 = k + ?n" by blast
  obtain r2 sls2 k2 st2 where rec: "run_slides env src tgt N sls k1 st1 = (r2, sls2, k2, st2)"
    by (cases "run_slides env src tgt N sls k1 st1") auto
  have "fst (run_slides env src tgt N sls k1 st1) = None"
    using Cons.prems k1 by (intro Cons.IH) simp_all
  with rec have "r2 = None" by simp
  then show ?case using rs r1 rec by simp
qed

lemma translate_shape_picture: "translate_shape env src tgt picture st = (None, picture, st)"
  by (simp add: translate_shape_def picture_def)

text \<open>
  The Progress values of a run that opened its document: one for each count the loops
  reached, so that they never decrease and lie between 0 and 100; and where the loops
  ended without an exception, one for each shape, the last one 100.
\<close>

lemma run_document_progress:
  fixes env :: "'w services"
  assumes "GoogleTranslator env (source self) (target self) w = (None, w1)"
    and "Presentation env (input_file self) w1 = (Inr prs, w2)"
  shows "\<exists>k. k \<le> total_shapes_of prs \<and>
           map Inr (progress_values (run_notifications env self w)) =
             map (\<lambda>i. percentage i (total_shapes_of prs)) [Suc 0..<Suc k] \<and>
           ((\<forall>st. fst (run_slides env (source self) (target self) (total_shapes_of prs)
                         (slides prs) 0 st) = None) \<longrightarrow> k = total_shapes_of prs) \<and>
           ((\<forall>x e. Print x (Some e) \<notin> set (trace (run env self (start w)))) \<longrightarrow>
              k = total_shapes_of prs)"
proof -
  have g: "GoogleTranslator env (source self) (target self) (world (start w)) = (None, w1)"
    using assms(1) by simp
  from run_document [OF g assms(2)]
  obtain r sls k and st3 :: "'w state" and new vs where
    loop: "run_slides env (source self) (target self) (total_shapes_of prs) (slides prs) 0
               \<lparr>world = w2,
                trace = trace (start w) @ [Call_GoogleTranslator (source self) (target self) None,
                                    Call_Presentation (input_file self) None]\<rparr> =
             (r, sls, k, st3)"
    and tr: "trace st3 = trace (start w) @
           [Call_GoogleTranslator (source self) (target self) None,
            Call_Presentation (input_file self) None] @ new"
    and new: "notifications new = map Progress vs"
    and k: "k \<le> total_shapes_of prs"
    and vs: "map Inr vs = map (\<lambda>i. percentage i (total_shapes_of prs)) [Suc 0..<Suc k]"
    and ok: "r = None \<longrightarrow>
          k = total_shapes_of prs \<and>
          (\<exists>rs w4. run env self (start w) =
               \<lparr>world = w4,
                trace = trace st3 @
                  [Call_save (prs\<lparr>slides := sls\<rparr>) (output_file self) rs,
                   Emit (case rs of None \<Rightarrow> Finished | Some e \<Rightarrow> Error e)]\<rparr>)"
    and bad: "\<forall>e. r = Some e \<longrightarrow>
          (\<exists>x. Print x (Some e) \<in> set new) \<and>
          run env self (start w) = \<lparr>world = world st3, trace = trace st3 @ [Emit (Error e)]\<rparr>"
    by blast
  have pv: "progress_values (run_notifications env self w) = vs"
  proof (cases r)
    case None
    with ok obtain rs w4 where "run env self (start w) =
               \<lparr>world = w4,
                trace = trace st3 @
                  [Call_save (prs\<lparr>slides := sls\<rparr>) (output_file self) rs,
                   Emit (case rs of None \<Rightarrow> Finished | Some e \<Rightarrow> Error e)]\<rparr>"
      by blast
    then show ?thesis using tr new by (cases rs) (simp_all add: run_notifications_def)
  next
    case (Some e)
    with bad have "run env self (start w) =
        \<lparr>world = world st3, trace = trace st3 @ [Emit (Error e)]\<rparr>"
      by simp
    then show ?thesis using tr new by (simp add: run_notifications_def)
  qed
  have q1: "k = total_shapes_of prs"
    if "\<forall>st. fst (run_slides env (source self) (target self) (total_shapes_of prs)
                         (slides prs) 0 st) = None"
  proof -
    from that loop have "r = None" by (metis fst_conv)
    with ok show ?thesis by simp
  qed
  have q2: "k = total_shapes_of prs"
    if np: "\<forall>x e. Print x (Some e) \<notin> set (trace (run env self (start w)))"
  proof (cases r)
    case None
    with ok show ?thesis by simp
  next
    case (Some e)
    with bad obtain x where "Print x (Some e) \<in> set new"
      and "run env self (start w) = \<lparr>world = world st3, trace = trace st3 @ [Emit (Error e)]\<rparr>"
      by blast
    then have "Print x (Some e) \<in> set (trace (run env self (start w)))" using tr by simp
    with np show ?thesis by blast
  qed
  from k vs pv q1 q2 show ?thesis by blast
qed

lemma progress_values_of_run:
  fixes env :: "'w services"
  assumes "GoogleTranslator env (source self) (target self) w = (None, w1)"
    and "Presentation env (input_file self) w1 = (Inr prs, w2)"
  shows "length (progress_values (run_notifications env self w)) \<le> total_shapes_of prs"
    and "sorted (progress_values (run_notifications env self w))"
    and "\<forall>v\<in>set (progress_values (run_notifications env self w)). 0 \<le> v \<and> v \<le> 100"
    and "\<forall>x e. Print x (Some e) \<notin> set (trace (run env self (start w))) \<Longrightarrow>
           length (progress_values (run_notifications env self w)) = total_shapes_of prs \<and>
           (0 < total_shapes_of prs \<longrightarrow> last (progress_values (run_notifications env self w)) = 100)"
proof -
  from run_document_progress [OF assms] obtain k where
    k: "k \<le> total_shapes_of prs"
    and pv: "map Inr (progress_values (run_notifications env self w)) =
             map (\<lambda>i. percentage i (total_shapes_of prs)) [Suc 0..<Suc k]"
    and q: "(\<forall>x e. Print x (Some e) \<notin> set (trace (run env self (start w)))) \<longrightarrow>
              k = total_shapes_of prs"
    by blast
  note p = percentages_sorted [OF pv k]
  show "length (progress_values (run_notifications env self w)) \<le> total_shapes_of prs"
    using p(1) k by simp
  show "sorted (progress_values (run_notifications env self w))" by (rule p(2))
  show "\<forall>v\<in>set (progress_values (run_notifications env self w)). 0 \<le> v \<and> v \<le> 100"
    by (rule p(3))
  show "length (progress_values (run_notifications env self w)) = total_shapes_of prs \<and>
      (0 < total_shapes_of prs \<longrightarrow> last (progress_values (run_notifications env self w)) = 100)"
    if "\<forall>x e. Print x (Some e) \<notin> set (trace (run env self (start w)))"
    using that q p(1) p(4) by simp
qed

text \<open>
  C3 at a presentation of fifty shapes: the 29th Progress value is 57, for
  \<open>29 / 50\<close> is the float just below 0.58 and its product with 100 the float just below
  58; the floor of the exact quotient times 100 is 58.
\<close>

theorem progress_29_of_50:
  "progress_values
     (run_notifications (disk_services []) (job ''in.pptx'' ''out.pptx'')
        (disk_with ''in.pptx'' (deck [replicate 50 picture]))) ! 28 = 57 \<and>
   \<lfloor>(29::rat) / 50 * 100\<rfloor> = 58"
proof -
  let ?prs = "deck [replicate 50 picture]"
  let ?d = "disk_with ''in.pptx'' ?prs"
  let ?self = "job ''in.pptx'' ''out.pptx''"
  let ?pv = "progress_values (run_notifications (disk_services []) ?self ?d)"
  have g: "GoogleTranslator (disk_services []) (source ?self) (target ?self) ?d = (None, ?d)"
    by (simp add: disk_services_def)
  have p: "Presentation (disk_services []) (input_file ?self) ?d = (Inr ?prs, ?d)"
    by (simp add: disk_services_def disk_with_def job_def)
  have n: "total_shapes_of ?prs = 50" by (simp add: total_shapes_of_def deck_def)
  have quiet: "\<forall>st. fst (run_slides (disk_services []) (source ?self) (target ?self)
      (total_shapes_of ?prs) (slides ?prs) 0 st) = None"
  proof
    fix st :: "disk state"
    show "fst (run_slides (disk_services []) (source ?self) (target ?self)
        (total_shapes_of ?prs) (slides ?prs) 0 st) = None"
      by (rule run_slides_quiet) (simp_all add: deck_def total_shapes_of_def translate_shape_picture)
  qed
  from run_document_progress [OF g p] obtain k where
    kk: "map Inr ?pv = map (\<lambda>i. percentage i (total_shapes_of ?prs)) [Suc 0..<Suc k]"
    and full: "(\<forall>st. fst (run_slides (disk_services []) (source ?self) (target ?self)
      (total_shapes_of ?prs) (slides ?prs) 0 st) = None) \<longrightarrow> k = total_shapes_of ?prs"
    by blast
  from full quiet have k50: "k = total_shapes_of ?prs" by (rule mp)
  from kk have eq: "map Inr ?pv = map (\<lambda>k. percentage k 50) [Suc 0..<Suc 50]"
    unfolding k50 n .
  then have "length (map Inr ?pv :: (string + int) list) = length [Suc 0..<Suc 50]" by simp
  then have len: "length ?pv = 50" by simp
  have "(map Inr ?pv :: (string + int) list) ! 28 = map (\<lambda>k. percentage k 50) [Suc 0..<Suc 50] ! 28"
    using eq by simp
  then have "Inr (?pv ! 28) = percentage 29 50"
    using len by (simp del: upt_Suc)
  moreover have "percentage 29 50 = Inr 57" by (simp add: percentage_eq) code_simp
  ultimately have "?pv ! 28 = 57" by simp
  moreover have "\<lfloor>(29::rat) / 50 * 100\<rfloor> = 58" by simp
  ultimately show ?thesis by blast
qed

subsection \<open>Shapes that fail\<close>

text \<open>
  Where the handler's \<open>print\<close> returns, a failed shape is counted and gets its Progress,
  and the pass ends without an exception, so that the loop goes on.
\<close>

lemma process_shape_failed:
  assumes "translate_shape env src tgt sh st = (Some e, sh', st1)"
    and "print env (''Error processing shape: '' @ e) (world st1) = (None, w2)"
    and "Suc k \<le> N"
  shows "\<exists>v. percentage (Suc k) N = Inr v \<and>
           process_shape env src tgt N sh k st =
             (None, sh', Suc k,
              emit (Progress v)
                \<lparr>world = w2, trace = trace st1 @ [Print (''Error processing shape: '' @ e) None]\<rparr>)"
proof -
  from assms(3) have "0 < N" by simp
  from percentage_eq(1) [OF this assms(3)] obtain v where v: "percentage (Suc k) N = Inr v"
    by blast
  then have "process_shape env src tgt N sh k st =
      (None, sh', Suc k,
       emit (Progress v)
         \<lparr>world = w2, trace = trace st1 @ [Print (''Error processing shape: '' @ e) None]\<rparr>)"
    using assms(1,2) by (simp add: process_shape_def call_print_def)
  with v show ?thesis by blast
qed

text \<open>
  Where it raises, the exception leaves both loops: the shape is not counted, no
  Progress is emitted for it and the shapes after it are not looked at.
\<close>

lemma process_shape_print_raises:
  assumes "translate_shape env src tgt sh st = (Some e, sh', st1)"
    and "print env (''Error processing shape: '' @ e) (world st1) = (Some e', w2)"
  shows "process_shape env src tgt N sh k st =
           (Some e', sh', k,
            \<lparr>world = w2, trace = trace st1 @ [Print (''Error processing shape: '' @ e) (Some e')]\<rparr>)"
    and "run_shapes env src tgt N (sh # rest) k st =
           (Some e', sh' # rest, k,
            \<lparr>world = w2, trace = trace st1 @ [Print (''Error processing shape: '' @ e) (Some e')]\<rparr>)"
proof -
  show "process_shape env src tgt N sh k st =
      (Some e', sh', k,
       \<lparr>world = w2, trace = trace st1 @ [Print (''Error processing shape: '' @ e) (Some e')]\<rparr>)"
    using assms by (simp add: process_shape_def call_print_def)
  then show "run_shapes env src tgt N (sh # rest) k st =
      (Some e', sh' # rest, k,
       \<lparr>world = w2, trace = trace st1 @ [Print (''Error processing shape: '' @ e) (Some e')]\<rparr>)"
    by simp
qed

lemma strip_untranslatable: "strip untranslatable \<noteq> []"
  by (simp add: untranslatable_def strip_def isspace_def)

lemma stub_translate_untranslatable:
  "stub_translate untranslatable = Inl (untranslatable @ '' --> text could not be translated'')"
  by (simp add: stub_translate_def untranslatable_def)

lemma accent_in_untranslatable: "CHR 0xE9 \<in> set untranslatable"
  by (simp add: untranslatable_def)

lemma ascii_print_accent:
  "CHR 0xE9 \<in> set s \<Longrightarrow> ascii_print s = Some ''ascii codec cannot encode a character of the line''"
proof -
  assume a: "CHR 0xE9 \<in> set s"
  have b: "\<not> (of_char (CHR 0xE9) :: nat) < 128" by simp
  from a b have "\<exists>c\<in>set s. \<not> (of_char c :: nat) < 128" by (rule bexI [rotated])
  then have "\<not> list_all (\<lambda>c. (of_char c :: nat) < 128) s" by (simp add: list_all_iff)
  then show ?thesis by (simp add: ascii_print_def)
qed

text \<open>
  C4 at a slide of two text boxes, on a standard output in ASCII: the translator
  refuses the first text and puts it into its message, the handler's \<open>print\<close> of line 57
  raises on the accented character, and the run ends there with that exception as its
  Error. The failed shape has no Progress, and the second text is never sent.
\<close>

theorem failed_shape_ends_run:
  "run_notifications (disk_services []) (job ''in.pptx'' ''out.pptx'')
     (disk_with ''in.pptx'' (deck [[text_box untranslatable, text_box ''Hello'']])) =
     [Error ''ascii codec cannot encode a character of the line''] \<and>
   sent (trace (run (disk_services []) (job ''in.pptx'' ''out.pptx'')
     (start (disk_with ''in.pptx'' (deck [[text_box untranslatable, text_box ''Hello'']]))))) =
     [untranslatable]"
  by (simp add: run_notifications_def run_def call_GoogleTranslator_def call_Presentation_def
      call_translate_def call_print_def emit_def start_def process_shape_def translate_shape_def
      total_shapes_of_def strip_untranslatable stub_translate_untranslatable
      accent_in_untranslatable ascii_print_accent disk_services_def disk_with_def deck_def text_box_def job_def)

lemma percentage_1_4: "percentage (Suc 0) (Suc (Suc (Suc (Suc 0)))) = Inr 25"
proof -
  have "percentage 1 4 = Inr 25" by (simp add: percentage_eq) code_simp
  then show ?thesis by (simp add: eval_nat_numeral)
qed

text \<open>
  C10 at a slide of four shapes, on a standard output in ASCII: a picture, a text
  that the translator refuses, a picture and a blank text. The handler's \<open>print\<close> raises
  at the second shape, so that of the four shapes in the total only the first is
  counted and has its Progress; the picture and the blank text after the failed shape
  are never reached.
\<close>

theorem shapes_after_failed_print_uncounted:
  "total_shapes_of (deck [[picture, text_box untranslatable, picture, text_box ''  '']]) = 4 \<and>
   run_notifications (disk_services []) (job ''in.pptx'' ''out.pptx'')
     (disk_with ''in.pptx'' (deck [[picture, text_box untranslatable, picture, text_box ''  '']])) =
     [Progress 25, Error ''ascii codec cannot encode a character of the line'']"
  by (simp add: run_notifications_def run_def call_GoogleTranslator_def call_Presentation_def
      call_translate_def call_print_def emit_def start_def process_shape_def translate_shape_def
      total_shapes_of_def strip_untranslatable stub_translate_untranslatable
      accent_in_untranslatable ascii_print_accent percentage_1_4
      disk_services_def disk_with_def deck_def text_box_def picture_def job_def)

subsection \<open>Which texts are translated\<close>
















subsection \<open>Files\<close>

lemma call_translate_world:
  "call_translate env src tgt t st = (r, st') \<Longrightarrow> world st' = snd (translate env src tgt t (world st))"
  by (auto simp: call_translate_def split: prod.splits)

lemma assign_world:
  "assign env v st = (r, st') \<Longrightarrow> world st' = snd (set_text env v (world st))"
  by (auto simp: assign_def split: prod.splits)

lemma call_translate_files:
  "writes_only_on_save env files \<Longrightarrow> call_translate env src tgt t st = (r, st') \<Longrightarrow>
     files (world st') = files (world st)"
  by (simp add: call_translate_world writes_only_on_save_def)

lemma assign_files:
  "writes_only_on_save env files \<Longrightarrow> assign env v st = (r, st') \<Longrightarrow>
     files (world st') = files (world st)"
  by (simp add: assign_world writes_only_on_save_def)

lemma translate_paragraphs_files:
  assumes "writes_only_on_save env files"
  shows "translate_paragraphs env src tgt ps st = (r, ps', st') \<Longrightarrow>
           files (world st') = files (world st)"
proof (induction ps arbitrary: st r ps' st')
  case Nil
  then show ?case by simp
next
  case (Cons p ps)
  show ?case
  proof (cases "strip (para_text p) \<noteq> []")
    case False
    with Cons.prems obtain ps1 where "translate_paragraphs env src tgt ps st = (r, ps1, st')"
      by (auto split: prod.splits)
    then show ?thesis by (rule Cons.IH)
  next
    case True
    obtain r1 st1 where c: "call_translate env src tgt (para_text p) st = (r1, st1)"
      by (cases "call_translate env src tgt (para_text p) st")
    note f1 = call_translate_files [OF assms c]
    show ?thesis
    proof (cases r1)
      case (Inl e)
      with Cons.prems True c have "st' = st1" by simp
      then show ?thesis using f1 by simp
    next
      case (Inr t)
      obtain r2 st2 where a: "assign env t st1 = (r2, st2)" by (cases "assign env t st1")
      note f2 = assign_files [OF assms a]
      show ?thesis
      proof (cases r2)
        case (Some e)
        with Cons.prems True c Inr a have "st' = st2" by simp
        then show ?thesis using f1 f2 by simp
      next
        case None
        with Cons.prems True c Inr a obtain ps1 where
          "translate_paragraphs env src tgt ps st2 = (r, ps1, st')"
          by (auto split: prod.splits)
        from Cons.IH [OF this] show ?thesis using f1 f2 by simp
      qed
    qed
  qed
qed

lemma translate_shape_files:
  assumes "writes_only_on_save env files" "translate_shape env src tgt sh st = (r, sh', st')"
  shows "files (world st') = files (world st)"
proof (cases "shape_text sh")
  case (Some t)
  show ?thesis
  proof (cases "strip t \<noteq> []")
    case False
    with Some assms(2) show ?thesis by (simp add: translate_shape_def)
  next
    case True
    obtain r1 st1 where c: "call_translate env src tgt t st = (r1, st1)"
      by (cases "call_translate env src tgt t st")
    note f1 = call_translate_files [OF assms(1) c]
    show ?thesis
    proof (cases r1)
      case (Inl e)
      with Some True c assms(2) have "st' = st1" by (simp add: translate_shape_def)
      then show ?thesis using f1 by simp
    next
      case (Inr t')
      obtain r2 st2 where a: "assign env t' st1 = (r2, st2)" by (cases "assign env t' st1")
      note f2 = assign_files [OF assms(1) a]
      from Some True c Inr a assms(2) have "st' = st2"
        by (cases r2) (simp_all add: translate_shape_def)
      then show ?thesis using f1 f2 by simp
    qed
  qed
next
  case None
  show ?thesis
  proof (cases "shape_text_frame sh")
    case no_frame: None
    with None assms(2) show ?thesis by (simp add: translate_shape_def)
  next
    case (Some tf)
    show ?thesis
    proof (cases "strip (text_frame_text tf) \<noteq> []")
      case False
      with None Some assms(2) show ?thesis by (simp add: translate_shape_def)
    next
      case True
      with None Some assms(2) obtain ps' where
        "translate_paragraphs env src tgt (paragraphs tf) st = (r, ps', st')"
        by (auto simp: translate_shape_def split: prod.splits)
      then show ?thesis by (rule translate_paragraphs_files [OF assms(1)])
    qed
  qed
qed

lemma call_print_world:
  "call_print env s st = (r, st') \<Longrightarrow> world st' = snd (print env s (world st))"
  by (auto simp: call_print_def split: prod.splits)

lemma call_print_files:
  "writes_only_on_save env files \<Longrightarrow> call_print env s st = (r, st') \<Longrightarrow>
     files (world st') = files (world st)"
  by (simp add: call_print_world writes_only_on_save_def)

lemma process_shape_files:
  assumes "writes_only_on_save env files" "process_shape env src tgt N sh k st = (r, sh', k', st')"
  shows "files (world st') = files (world st)"
proof -
  obtain r1 sh1 st1 where ts: "translate_shape env src tgt sh st = (r1, sh1, st1)"
    by (cases "translate_shape env src tgt sh st")
  from translate_shape_files [OF assms(1) ts] have f1: "files (world st1) = files (world st)" .
  show ?thesis
  proof (cases r1)
    case None
    with assms(2) ts have "world st' = world st1"
      by (auto simp: process_shape_def Let_def emit_def split: sum.splits)
    with f1 show ?thesis by simp
  next
    case (Some e)
    obtain r2 st2 where pr: "call_print env (''Error processing shape: '' @ e) st1 = (r2, st2)"
      by (cases "call_print env (''Error processing shape: '' @ e) st1")
    from call_print_files [OF assms(1) pr] have f2: "files (world st2) = files (world st1)" .
    from Some assms(2) ts pr have "world st' = world st2"
      by (cases r2) (auto simp: process_shape_def Let_def emit_def split: sum.splits)
    with f1 f2 show ?thesis by simp
  qed
qed

lemma run_shapes_files:
  assumes "writes_only_on_save env files"
  shows "run_shapes env src tgt N shs k st = (r, shs', k', st') \<Longrightarrow>
           files (world st') = files (world st)"
proof (induction shs arbitrary: k st r shs' k' st')
  case Nil
  then show ?case by simp
next
  case (Cons sh shs)
  obtain r1 sh1 k1 st1 where ps: "process_shape env src tgt N sh k st = (r1, sh1, k1, st1)"
    by (cases "process_shape env src tgt N sh k st") auto
  note f1 = process_shape_files [OF assms ps]
  show ?case
  proof (cases r1)
    case (Some e)
    with Cons.prems ps have "st' = st1" by simp
    then show ?thesis using f1 by simp
  next
    case None
    with Cons.prems ps obtain shs1 where "run_shapes env src tgt N shs k1 st1 = (r, shs1, k', st')"
      by (auto split: prod.splits)
    from Cons.IH [OF this] show ?thesis using f1 by simp
  qed
qed

lemma run_slides_files:
  assumes "writes_only_on_save env files"
  shows "run_slides env src tgt N sls k st = (r, sls', k', st') \<Longrightarrow>
           files (world st') = files (world st)"
proof (induction sls arbitrary: k st r sls' k' st')
  case Nil
  then show ?case by simp
next
  case (Cons sl sls)
  obtain r1 shs1 k1 st1 where rs: "run_shapes env src tgt N (shapes sl) k st = (r1, shs1, k1, st1)"
    by (cases "run_shapes env src tgt N (shapes sl) k st") auto
  note f1 = run_shapes_files [OF assms rs]
  show ?case
  proof (cases r1)
    case (Some e)
    with Cons.prems rs have "st' = st1" by simp
    then show ?thesis using f1 by simp
  next
    case None
    with Cons.prems rs obtain sls1 where "run_slides env src tgt N sls k1 st1 = (r, sls1, k', st')"
      by (auto split: prod.splits)
    from Cons.IH [OF this] show ?thesis using f1 by simp
  qed
qed

text \<open>
  C6, as amended: the worker calls \<open>save\<close> at most once, with the output path, as the
  last step before the terminal signal and only after the translator was constructed,
  the document opened and both loops ended; Finished follows a save that returns and
  Error one that raises. With libraries that write nothing but the file named in a
  \<open>save\<close>, a run leaves every file other than the one at the output path as it was, so
  also the input file when the two paths differ, and a run without a \<open>save\<close> leaves all
  files as they were.
\<close>

theorem output_written_at_the_end:
  fixes env :: "'w services" and files :: "'w \<Rightarrow> string \<Rightarrow> 'f"
  assumes "writes_only_on_save env files"
  shows "(\<forall>q. q \<noteq> output_file self \<longrightarrow> files (world (run env self (start w))) q = files w q) \<and>
         ((\<forall>prs p r. Call_save prs p r \<notin> set (trace (run env self (start w)))) \<longrightarrow>
            files (world (run env self (start w))) = files w) \<and>
         (\<forall>prs p r. Call_save prs p r \<in> set (trace (run env self (start w))) \<longrightarrow>
            p = output_file self \<and>
            (\<exists>new. list_all in_loop new \<and>
               trace (run env self (start w)) =
                 [Call_GoogleTranslator (source self) (target self) None,
                  Call_Presentation (input_file self) None] @ new @
                 [Call_save prs p r, Emit (case r of None \<Rightarrow> Finished | Some e \<Rightarrow> Error e)]))"
proof -
  from assms have fg: "\<And>s t w. files (snd (GoogleTranslator env s t w)) = files w"
    and fp: "\<And>p w. files (snd (Presentation env p w)) = files w"
    and fs: "\<And>prs p w q. q \<noteq> p \<Longrightarrow> files (snd (save env prs p w)) q = files w q"
    by (simp_all add: writes_only_on_save_def)
  obtain g w1 where g: "GoogleTranslator env (source self) (target self) (world (start w)) = (g, w1)"
    by (cases "GoogleTranslator env (source self) (target self) (world (start w))")
  have f1: "files w1 = files w" using fg [of "source self" "target self" w] g by simp
  show ?thesis
  proof (cases g)
    case (Some e)
    from run_no_translator [OF g [unfolded Some]] f1 show ?thesis by simp
  next
    case None
    note g = g [unfolded None]
    obtain p' w2 where p: "Presentation env (input_file self) w1 = (p', w2)"
      by (cases "Presentation env (input_file self) w1")
    have f2: "files w2 = files w" using fp [of "input_file self" w1] p f1 by simp
    show ?thesis
    proof (cases p')
      case (Inl e)
      from run_no_document [OF g p [unfolded Inl]] f2 show ?thesis by simp
    next
      case (Inr doc)
      from run_document [OF g p [unfolded Inr]]
      obtain r sls k and st3 :: "'w state" and new where
        loop: "run_slides env (source self) (target self) (total_shapes_of doc) (slides doc) 0
                 \<lparr>world = w2,
                  trace = trace (start w) @ [Call_GoogleTranslator (source self) (target self) None,
                                      Call_Presentation (input_file self) None]\<rparr> =
               (r, sls, k, st3)"
        and tr: "trace st3 = trace (start w) @
                 [Call_GoogleTranslator (source self) (target self) None,
                  Call_Presentation (input_file self) None] @ new"
        and new: "list_all in_loop new"
        and ok: "r = None \<longrightarrow>
              (\<exists>rs w4. save env (doc\<lparr>slides := sls\<rparr>) (output_file self) (world st3) = (rs, w4) \<and>
                 run env self (start w) =
                   \<lparr>world = w4,
                    trace = trace st3 @
                      [Call_save (doc\<lparr>slides := sls\<rparr>) (output_file self) rs,
                       Emit (case rs of None \<Rightarrow> Finished | Some e \<Rightarrow> Error e)]\<rparr>)"
        and bad: "\<forall>e. r = Some e \<longrightarrow>
              run env self (start w) = \<lparr>world = world st3, trace = trace st3 @ [Emit (Error e)]\<rparr>"
        by blast
      from run_slides_files [OF assms loop] f2 have f3: "files (world st3) = files w" by simp
      have nosave: "Call_save prs p r' \<notin> set new" for prs p r'
        using new by (auto simp: list_all_iff)
      show ?thesis
      proof (cases r)
        case None
        with ok obtain rs w4 where
          sv: "save env (doc\<lparr>slides := sls\<rparr>) (output_file self) (world st3) = (rs, w4)"
          and run: "run env self (start w) =
                   \<lparr>world = w4,
                    trace = trace st3 @
                      [Call_save (doc\<lparr>slides := sls\<rparr>) (output_file self) rs,
                       Emit (case rs of None \<Rightarrow> Finished | Some e \<Rightarrow> Error e)]\<rparr>"
          by blast
        have a: "\<forall>q. q \<noteq> output_file self \<longrightarrow> files (world (run env self (start w))) q = files w q"
          using fs [of _ "output_file self" "doc\<lparr>slides := sls\<rparr>" "world st3"] sv f3 run by simp
        have b: "Call_save (doc\<lparr>slides := sls\<rparr>) (output_file self) rs
            \<in> set (trace (run env self (start w)))"
          using run by simp
        have c: "p = output_file self \<and>
              (\<exists>new. list_all in_loop new \<and>
                 trace (run env self (start w)) =
                   [Call_GoogleTranslator (source self) (target self) None,
                    Call_Presentation (input_file self) None] @ new @
                   [Call_save prs p r', Emit (case r' of None \<Rightarrow> Finished | Some e \<Rightarrow> Error e)])"
          if "Call_save prs p r' \<in> set (trace (run env self (start w)))" for prs p r'
        proof -
          from that tr run nosave [of prs p r']
          have "prs = doc\<lparr>slides := sls\<rparr>" "p = output_file self" "r' = rs"
            by auto
          then show ?thesis using tr run new by auto
        qed
        from a b c show ?thesis by blast
      next
        case (Some e)
        with bad have run: "run env self (start w) =
            \<lparr>world = world st3, trace = trace st3 @ [Emit (Error e)]\<rparr>"
          by simp
        have a: "files (world (run env self (start w))) = files w" using run f3 by simp
        have c: "Call_save prs p r' \<notin> set (trace (run env self (start w)))" for prs p r'
          using run tr nosave [of prs p r'] by simp
        from a c show ?thesis by simp
      qed
    qed
  qed
qed

lemma disk_services_frame: "writes_only_on_save (disk_services locked) (\<lambda>d. d)"
  by (auto simp: writes_only_on_save_def disk_services_def split: option.splits)

theorem output_written_at_the_end_witness:
  "writes_only_on_save (disk_services []) (\<lambda>d. d) \<and>
   world (run (disk_services []) (job ''in.pptx'' ''out.pptx'')
            (start (disk_with ''in.pptx'' (deck [[text_box ''Hello'']])))) ''in.pptx'' =
     Some (deck [[text_box ''Hello'']])"
proof -
  have "''in.pptx'' \<noteq> output_file (job ''in.pptx'' ''out.pptx'')" by (simp add: job_def)
  with output_written_at_the_end [OF disk_services_frame, of "job ''in.pptx'' ''out.pptx''" "[]"
      "disk_with ''in.pptx'' (deck [[text_box ''Hello'']])"]
  have "world (run (disk_services []) (job ''in.pptx'' ''out.pptx'')
            (start (disk_with ''in.pptx'' (deck [[text_box ''Hello'']])))) ''in.pptx'' =
      disk_with ''in.pptx'' (deck [[text_box ''Hello'']]) ''in.pptx''"
    by blast
  then show ?thesis using disk_services_frame [of "[]"] by (simp add: disk_with_def)
qed

lemma percentage_1_1: "percentage (Suc 0) (Suc 0) = Inr 100"
  using percentage_full [of "Suc 0"] by simp

text \<open>
  The claim as it stands fails where the user chose the input file as the output file:
  the run replaces it by the translated presentation.
\<close>

theorem input_file_overwritten:
  "disk_with ''deck.pptx'' (deck [[text_box ''Hello'']]) ''deck.pptx'' =
     Some (deck [[text_box ''Hello'']]) \<and>
   world (run (disk_services []) (job ''deck.pptx'' ''deck.pptx'')
            (start (disk_with ''deck.pptx'' (deck [[text_box ''Hello'']])))) ''deck.pptx'' =
     Some (deck [[text_box ''Hola'']]) \<and>
   deck [[text_box ''Hola'']] \<noteq> deck [[text_box ''Hello'']]"
  by (simp add: run_def call_GoogleTranslator_def call_Presentation_def call_save_def
      call_translate_def assign_def emit_def start_def process_shape_def translate_shape_def
      total_shapes_of_def percentage_1_1 strip_def isspace_def
      disk_services_def stub_translate_def disk_with_def deck_def text_box_def job_def)

subsection \<open>The window\<close>

lemma deliver_terminal_enables:
  assumes "finished_slots th = [Translation_finished]" "error_slots th = [Translation_error]"
  shows "translate_button (deliver th Finished app)"
    and "translate_button (deliver th (Error m) app)"
  using assms by (simp_all add: translation_finished_def translation_error_def)

lemma fold_deliver_stream:
  assumes "finished_slots th = [Translation_finished]" "error_slots th = [Translation_error]"
    and "t = Finished \<or> (\<exists>e. t = Error e)"
  shows "translate_button (fold (deliver th) (ns @ [t]) app)"
  using assms deliver_terminal_enables [OF assms(1,2)] by auto

text \<open>
  C7: with either label still at its placeholder, \<open>translate_pptx\<close> shows the warning and
  does nothing else: the window is as before but for the message box (no thread object,
  no thread started, button and progress bar untouched), and the click leaves the world
  and the trace of external calls as they were.
\<close>

theorem translate_pptx_guard:
  assumes "input_file_label app = ''No input file selected'' \<or>
           output_file_label app = ''No output file selected''"
  shows "translate_pptx app =
           app\<lparr>effects := effects app @
             [MessageBox (Warning ''Error'' ''Please select both input and output files.'')]\<rparr> \<and>
         thread (translate_pptx app) = thread app \<and>
         translate_button (translate_pptx app) = translate_button app \<and>
         progress_bar (translate_pptx app) = progress_bar app \<and>
         click_translate env (app, st) = (translate_pptx app, st)"
  using assms by (auto simp: translate_pptx_def click_translate_def)

theorem translate_pptx_guard_witness:
  "output_file_label (select_input_file ''in.pptx'' initUI) = ''No output file selected'' \<and>
   translate_pptx (select_input_file ''in.pptx'' initUI) =
     (select_input_file ''in.pptx'' initUI)
       \<lparr>effects := [MessageBox (Warning ''Error'' ''Please select both input and output files.'')]\<rparr> \<and>
   click_translate (disk_services []) (select_input_file ''in.pptx'' initUI, start (\<lambda>p. None)) =
     (translate_pptx (select_input_file ''in.pptx'' initUI), start (\<lambda>p. None))"
proof -
  let ?app = "select_input_file ''in.pptx'' initUI"
  have l: "output_file_label ?app = ''No output file selected''"
    by (simp add: select_input_file_def initUI_def)
  then have "input_file_label ?app = ''No input file selected'' \<or>
      output_file_label ?app = ''No output file selected''" ..
  from translate_pptx_guard [OF this, of "disk_services []" "start (\<lambda>p. None)"] l
  show ?thesis by (simp add: select_input_file_def initUI_def)
qed

text \<open>
  C9: when both labels hold a path, \<open>translate_pptx\<close> disables the button, sets the
  progress bar to 0, and creates and starts one thread, made from the labels and the
  two languages and connected to the window's three handlers. Each of the two terminal
  signals of that thread enables the button again, in whatever state the window is; so
  after the click, the run it starts and the delivery of the run's signals, the button is
  enabled.
\<close>

theorem translate_button_cycle:
  fixes env :: "'w services"
  assumes "input_file_label app \<noteq> ''No input file selected''"
    and "output_file_label app \<noteq> ''No output file selected''"
  shows "\<exists>th. th = \<lparr>input_file = input_file_label app, output_file = output_file_label app,
                     source = source_lang app, target = target_lang app,
                     progress_slots = [Update_progress],
                     finished_slots = [Translation_finished],
                     error_slots = [Translation_error]\<rparr> \<and>
              thread (translate_pptx app) = Some th \<and>
              effects (translate_pptx app) = effects app @ [Thread_start th] \<and>
              translate_button (translate_pptx app) = False \<and>
              progress_bar (translate_pptx app) = 0 \<and>
              translate_button (deliver th Finished app') \<and>
              translate_button (deliver th (Error m) app') \<and>
              translate_button (fst (click_translate env (app, st)))"
proof -
  let ?th = "\<lparr>input_file = input_file_label app, output_file = output_file_label app,
               source = source_lang app, target = target_lang app,
               progress_slots = [Update_progress],
               finished_slots = [Translation_finished],
               error_slots = [Translation_error]\<rparr>"
  have tp: "translate_pptx app =
      app\<lparr>thread := Some ?th, translate_button := False, progress_bar := 0,
          effects := effects app @ [Thread_start ?th]\<rparr>"
    using assms by (simp add: translate_pptx_def setValue_def Let_def)
  from run_stream [where env = env and self = ?th and st = st] obtain vs t where
    ns: "notifications (drop (length (trace st)) (trace (run env ?th st))) = map Progress vs @ [t]"
    and t: "t = Finished \<or> (\<exists>e. t = Error e)"
    by blast
  have "translate_button (fold (deliver ?th) (map Progress vs @ [t]) (translate_pptx app))"
    using t by (intro fold_deliver_stream) simp_all
  then have click: "translate_button (fst (click_translate env (app, st)))"
    using tp ns by (simp add: click_translate_def Let_def)
  have "translate_button (deliver ?th Finished app')"
    and "translate_button (deliver ?th (Error m) app')"
    by (simp_all add: translation_finished_def translation_error_def)
  then show ?thesis using tp click by simp
qed

theorem translate_button_cycle_witness:
  "translate_button
     (translate_pptx (select_output_file ''out.pptx'' (select_input_file ''in.pptx'' initUI))) = False \<and>
   progress_bar
     (translate_pptx (select_output_file ''out.pptx'' (select_input_file ''in.pptx'' initUI))) = 0 \<and>
   translate_button
     (fst (click_translate (disk_services [])
        (select_output_file ''out.pptx'' (select_input_file ''in.pptx'' initUI),
         start (disk_with ''in.pptx'' (deck [[text_box ''Hello'']])))))"
proof -
  let ?app = "select_output_file ''out.pptx'' (select_input_file ''in.pptx'' initUI)"
  have i: "input_file_label ?app \<noteq> ''No input file selected''"
    by (simp add: select_output_file_def select_input_file_def initUI_def)
  have out: "output_file_label ?app \<noteq> ''No output file selected''"
    by (simp add: select_output_file_def select_input_file_def initUI_def)
  from translate_button_cycle [OF i out, where env = "disk_services []"
      and st = "start (disk_with ''in.pptx'' (deck [[text_box ''Hello'']]))"]
  show ?thesis by blast
qed

end
